theory Spec2Isabelle
  imports Complex_Main "HOL-Library.Sublist"
begin

section \<open>The redirect panel of cuegui (Redirect.py)\<close>

text \<open>
  The panel is Qt presentation code over the remote cue service. The embedding keeps the
  decision logic of \<^verbatim>\<open>RedirectControls.detect\<close>, \<^verbatim>\<open>RedirectWidget.update\<close> and
  \<^verbatim>\<open>RedirectWidget.redirect\<close> with its two safety checks:
  \<^item> objects of the client library (procs, hosts, jobs, layers, subscriptions) are records
    of the fields the code reads;
  \<^item> Python floats (cores) are exact rationals, \<^verbatim>\<open>int(x)\<close> truncates towards zero;
  \<^item> calls into the service, the configuration, the answers of the user to modal dialogs
    and the clock are parameters (the record \<open>env\<close>);
  \<^item> what the code shows or sends is a chronological list of events;
  \<^item> an exception is a value of \<open>py_exc\<close>, returned beside the state the widget is left in.
\<close>

subsection \<open>Python helpers\<close>

datatype py_exc =
    EntityNotFoundException
  | OtherCueException
  | AttributeError
  | TypeError
  | OtherException

text \<open>\<^verbatim>\<open>except opencue.exception.CueException\<close> catches the base class and its subclasses.\<close>

fun is_CueException :: "py_exc \<Rightarrow> bool" where
  "is_CueException EntityNotFoundException = True"
| "is_CueException OtherCueException = True"
| "is_CueException _ = False"

text \<open>\<^verbatim>\<open>int(x)\<close> on a float: truncation towards zero.\<close>

definition py_int :: "rat \<Rightarrow> int" where
  "py_int x = (if 0 \<le> x then \<lfloor>x\<rfloor> else \<lceil>x\<rceil>)"

text \<open>\<^verbatim>\<open>s.rstrip(chars)\<close> removes trailing characters that occur in \<open>chars\<close>.\<close>

definition rstrip :: "string \<Rightarrow> string \<Rightarrow> string" where
  "rstrip s chars = rev (dropWhile (\<lambda>c. c \<in> set chars) (rev s))"

text \<open>\<^verbatim>\<open>a in b\<close> on two strings: \<open>a\<close> occurs in \<open>b\<close> as a contiguous substring.\<close>

fun starts_with :: "string \<Rightarrow> string \<Rightarrow> bool" where
  "starts_with s [] = True"
| "starts_with [] (p # ps) = False"
| "starts_with (c # cs) (p # ps) = (c = p \<and> starts_with cs ps)"

fun str_in :: "string \<Rightarrow> string \<Rightarrow> bool" where
  "str_in a [] = (a = [])"
| "str_in a (c # cs) = (starts_with (c # cs) a \<or> str_in a cs)"

text \<open>\<^verbatim>\<open>s.split("/")[0]\<close>: the part of \<open>s\<close> before the first slash.\<close>

definition split_first :: "string \<Rightarrow> string" where
  "split_first s = takeWhile (\<lambda>c. c \<noteq> CHR ''/'') s"

text \<open>
  A Python dict keeps insertion order; assigning to a key that is present keeps its place.
\<close>

fun dict_set :: "'k \<Rightarrow> 'v \<Rightarrow> ('k \<times> 'v) list \<Rightarrow> ('k \<times> 'v) list" where
  "dict_set k v [] = [(k, v)]"
| "dict_set k v ((k', v') # kvs) =
     (if k' = k then (k, v) # kvs else (k', v') # dict_set k v kvs)"

text \<open>\<^verbatim>\<open>dict(pairs)\<close>: of two pairs with one key the later one stays.\<close>

definition dict_of_pairs :: "('k \<times> 'v) list \<Rightarrow> 'k \<rightharpoonup> 'v" where
  "dict_of_pairs kvs = map_of (rev kvs)"

subsection \<open>Objects of the client library\<close>

record layer =
  min_cores :: rat
  min_memory :: int

text \<open>A job: \<^verbatim>\<open>job.name()\<close>, \<^verbatim>\<open>job.show()\<close> (also \<^verbatim>\<open>job.data.show\<close>) and \<^verbatim>\<open>job.getLayers()\<close>.\<close>

record job =
  j_name :: string
  j_show :: string
  j_layers :: "layer list"

record proc =
  p_name :: string
  p_show_name :: string
  p_job_name :: string
  p_redirect_target :: string
  p_services :: "string list"
  p_group_name :: string
  p_reserved_memory :: int
  p_reserved_cores :: rat
  p_dispatch_time :: int

record host =
  h_name :: string
  h_idle_memory :: int
  h_idle_cores :: rat
  h_alloc_name :: string

record subscription =
  s_name :: string
  s_allocation_name :: string
  s_burst :: int
  s_reserved_cores :: int

text \<open>A show: \<^verbatim>\<open>show.data.name\<close> and \<^verbatim>\<open>show.getSubscriptions()\<close>.\<close>

record cue_show =
  sh_name :: string
  sh_subscriptions :: "subscription list"

subsection \<open>RedirectControls\<close>

text \<open>
  The values held by the widgets of the controls: the text of the line edits, the value
  of the spin boxes, the show found by \<^verbatim>\<open>showChanged\<close>, the texts of the checked actions
  of the allocation and group menus, and the items of the show combo. For the proc-hour
  spin box the record holds \<open>prh_seconds\<close>, the float product
  \<^verbatim>\<open>self.__prh_spin.value() * 3600.0\<close> as the float arithmetic gives it (a float is a
  rational number): the rounding of that product is not computed here. The product of the
  memory spin box with 1048576.0, a power of two, is exact.
\<close>

record controls =
  job_box :: string
  cores_spin :: int
  mem_spin :: rat
  limit_spin :: int
  prh_seconds :: rat
  require_services :: string
  exclude_regex :: string
  include_group_btn :: "string list"
  alloc_filter :: "string list"
  current_show :: cue_show
  show_combo :: "string list"

definition getJob :: "controls \<Rightarrow> string" where
  "getJob c = job_box c"

definition getCores :: "controls \<Rightarrow> int" where
  "getCores c = cores_spin c"

definition getMemory :: "controls \<Rightarrow> int" where
  "getMemory c = py_int (mem_spin c * 1048576)"

definition getLimit :: "controls \<Rightarrow> int" where
  "getLimit c = limit_spin c"

definition getCutoffTime :: "controls \<Rightarrow> int" where
  "getCutoffTime c = py_int (prh_seconds c)"

text \<open>
  \<^verbatim>\<open>str.strip()\<close> removes white space at both ends. A character of a \<open>string\<close> is a code
  point below 256; the white space among these is what \<^verbatim>\<open>str.isspace\<close> accepts there:
  tab to carriage return, the separators 0x1C to 0x1F, the space, 0x85 and 0xA0.
\<close>

definition is_space :: "char \<Rightarrow> bool" where
  "is_space c =
     (c \<in> set [CHR 0x09, CHR 0x0A, CHR 0x0B, CHR 0x0C, CHR 0x0D,
                CHR 0x1C, CHR 0x1D, CHR 0x1E, CHR 0x1F, CHR '' '', CHR 0x85, CHR 0xA0])"

definition strip :: "string \<Rightarrow> string" where
  "strip s = rev (dropWhile is_space (rev (dropWhile is_space s)))"

definition getRequiredService :: "controls \<Rightarrow> string" where
  "getRequiredService c = strip (require_services c)"

definition getJobNameExcludeRegex :: "controls \<Rightarrow> string" where
  "getJobNameExcludeRegex c = strip (exclude_regex c)"

definition getIncludedGroups :: "controls \<Rightarrow> string list" where
  "getIncludedGroups c = include_group_btn c"

definition getShow :: "controls \<Rightarrow> cue_show" where
  "getShow c = current_show c"

definition getSelected :: "controls \<Rightarrow> string list" where
  "getSelected c = alloc_filter c"

subsection \<open>What the panel shows and sends\<close>

text \<open>
  \<open>status\<close> in \<^verbatim>\<open>__is_burst_safe\<close>: \<^verbatim>\<open>'at burst'\<close>, or \<^verbatim>\<open>'%d cores below burst'\<close> and
  \<^verbatim>\<open>'%d cores above burst'\<close> with \<^verbatim>\<open>procs_to_burst\<close> (negative when above).
\<close>

datatype burst_status =
    At_burst
  | Cores_below_burst int
  | Cores_above_burst int

text \<open>
  The texts of the dialogs, by their format string and its arguments: the cross-show
  question carries the shows of the jobs it lists (upper-cased and joined by the code), the
  burst question the allocation, the status, \<^verbatim>\<open>procs_to_redirect\<close> and \<^verbatim>\<open>wasted_cores\<close>,
  the missing-subscription warning the allocation and the show.
\<close>

datatype message =
    Nothing_selected
  | No_job_name
  | Some_procs_failed
  | Cross_show_question "string list"
  | Burst_question string burst_status int int
  | No_subscription string string

text \<open>
  An event is a message box (\<^verbatim>\<open>__warn\<close>), a yes/no question with its items and the answer
  of the user, or a call of \<^verbatim>\<open>host.redirectToJob(procs, job)\<close> with the text of the exception
  it raised, if it raised.
\<close>

datatype event =
    Warn message
  | QuestionBoxYesNo message "string list" bool
  | RedirectToJob host "proc list" job "string option"

fun is_RedirectToJob :: "event \<Rightarrow> bool" where
  "is_RedirectToJob (RedirectToJob h ps j r) = True"
| "is_RedirectToJob _ = False"

subsection \<open>The environment\<close>

text \<open>
  The cue service (\<^verbatim>\<open>opencue.api\<close>, \<^verbatim>\<open>proc.getJob()\<close>, \<^verbatim>\<open>host.redirectToJob\<close>), the resource
  configuration (\<^verbatim>\<open>wasted_cores_threshold\<close>, absent or an integer), \<^verbatim>\<open>re.match\<close>, the user
  and the clock. The user's answer and the outcome of a redirect may depend on everything
  that happened before; \<^verbatim>\<open>int(time.time())\<close> and \<^verbatim>\<open>progress.wasCanceled()\<close> are read once in
  an iteration of the loop of \<^verbatim>\<open>update\<close> and are given by the number of the iteration.
\<close>

record env =
  findJob :: "string \<Rightarrow> py_exc + job"
  findShow :: "string \<Rightarrow> py_exc + cue_show"
  findHost :: "string \<Rightarrow> py_exc + host"
  getProcs :: "string list \<Rightarrow> string list \<Rightarrow> py_exc + proc list"
  proc_getJob :: "proc \<Rightarrow> py_exc + job"
  redirectToJob :: "event list \<Rightarrow> host \<Rightarrow> proc list \<Rightarrow> job \<Rightarrow> string option"
  questionBoxYesNo :: "event list \<Rightarrow> message \<Rightarrow> string list \<Rightarrow> bool"
  wasted_cores_threshold :: "int option"
  re_match :: "string \<Rightarrow> string \<Rightarrow> py_exc + bool"
  time_time :: "nat \<Rightarrow> int"
  wasCanceled :: "nat \<Rightarrow> bool"

subsection \<open>detect\<close>

text \<open>
  \<^verbatim>\<open>QComboBox.findText\<close>: the index of the first item with the text, -1 when there is none.
\<close>

fun findText :: "string list \<Rightarrow> string \<Rightarrow> int" where
  "findText [] t = -1"
| "findText (x # xs) t =
     (if x = t then 0 else (let i = findText xs t in if i < 0 then -1 else i + 1))"

text \<open>The calls \<^verbatim>\<open>detect\<close> makes on the widgets of the controls, with their arguments.\<close>

datatype widget_call =
    Cores_setValue int
  | Mem_setValue rat
  | Show_setCurrentIndex int

text \<open>The loop over the layers, from \<^verbatim>\<open>minCores = 1.0\<close> and \<^verbatim>\<open>minMem = 0\<close>.\<close>

fun detect_layers :: "layer list \<Rightarrow> rat \<Rightarrow> int \<Rightarrow> rat \<times> int" where
  "detect_layers [] minCores minMem = (minCores, minMem)"
| "detect_layers (l # ls) minCores minMem =
     detect_layers ls
       (if min_cores l > minCores then min_cores l else minCores)
       (if min_memory l > minMem then min_memory l else minMem)"

text \<open>
  \<^verbatim>\<open>detect\<close>. The result is the exception that leaves the method, if any, and the calls
  made on the widgets.
\<close>

definition detect :: "env \<Rightarrow> controls \<Rightarrow> py_exc option \<times> widget_call list" where
  "detect env c =
     (case findJob env (job_box c) of
        Inl e \<Rightarrow> (if is_CueException e then (None, []) else (Some e, []))
      | Inr job \<Rightarrow>
          (case detect_layers (j_layers job) 1 0 of
             (minCores, minMem) \<Rightarrow>
               (None,
                [Cores_setValue (py_int minCores),
                 Mem_setValue (of_int minMem / 1048576),
                 Show_setCurrentIndex (findText (show_combo c) (j_show job))])))"

subsection \<open>RedirectWidget: the state\<close>

text \<open>An entry of \<^verbatim>\<open>self.__hosts\<close>, a dict with the keys host, procs, mem, cores, time, ok, alloc.\<close>

record entry =
  e_host :: host
  e_procs :: "proc list"
  e_mem :: int
  e_cores :: rat
  e_time :: int
  e_ok :: bool
  e_alloc :: string

text \<open>
  A row of the result model: the checkbox item of \<^verbatim>\<open>__addHost\<close> (its text, check state,
  enabled flag and whether it has the retry icon), the values its columns show (cores,
  memory, run time) and the procs of its child rows.
\<close>

record row =
  r_text :: string
  r_checked :: bool
  r_enabled :: bool
  r_retry_icon :: bool
  r_cores :: rat
  r_mem :: int
  r_time :: int
  r_procs :: "proc list"

record widget =
  w_hosts :: "string \<rightharpoonup> entry"
  w_model :: "row list"
  w_events :: "event list"

definition warn :: "message \<Rightarrow> event list \<Rightarrow> event list" where
  "warn msg evs = evs @ [Warn msg]"

definition ask ::
  "env \<Rightarrow> message \<Rightarrow> string list \<Rightarrow> event list \<Rightarrow> bool \<times> event list" where
  "ask env msg items evs =
     (let a = questionBoxYesNo env evs msg items
      in (a, evs @ [QuestionBoxYesNo msg items a]))"

subsection \<open>The safety checks\<close>

text \<open>
  The list comprehension of \<^verbatim>\<open>__is_cross_show_safe\<close>: the jobs of the procs, in order,
  whose show is not the target show.
\<close>

fun xshow_jobs :: "env \<Rightarrow> proc list \<Rightarrow> string \<Rightarrow> py_exc + job list" where
  "xshow_jobs env [] target_show = Inr []"
| "xshow_jobs env (p # ps) target_show =
     (case proc_getJob env p of
        Inl e \<Rightarrow> Inl e
      | Inr j \<Rightarrow>
          (case xshow_jobs env ps target_show of
             Inl e \<Rightarrow> Inl e
           | Inr js \<Rightarrow> Inr (if \<not> j_show j = target_show then j # js else js)))"

definition is_cross_show_safe ::
  "env \<Rightarrow> proc list \<Rightarrow> string \<Rightarrow> event list \<Rightarrow> (py_exc + bool) \<times> event list" where
  "is_cross_show_safe env procs target_show evs =
     (case xshow_jobs env procs target_show of
        Inl e \<Rightarrow> (Inl e, evs)
      | Inr js \<Rightarrow>
          (if js = [] then (Inr True, evs)
           else (case ask env (Cross_show_question (map j_show js)) (map j_name js) evs of
                   (a, evs') \<Rightarrow> (Inr a, evs'))))"

text \<open>
  \<^verbatim>\<open>show_subs\<close> of \<^verbatim>\<open>__is_burst_safe\<close>: the subscriptions of the show whose allocation name
  occurs in \<open>alloc\<close>, keyed by their name with the characters of \<^verbatim>\<open>'.' + show\<close> stripped
  from its end.
\<close>

definition show_subs :: "cue_show \<Rightarrow> string \<Rightarrow> string \<Rightarrow> string \<rightharpoonup> subscription" where
  "show_subs show_obj alloc show_name =
     dict_of_pairs
       (map (\<lambda>s. (rstrip (s_name s) (CHR ''.'' # show_name), s))
          (filter (\<lambda>s. str_in (s_allocation_name s) alloc) (sh_subscriptions show_obj)))"

definition burst_status_of :: "int \<Rightarrow> burst_status" where
  "burst_status_of procs_to_burst =
     (if procs_to_burst = 0 then At_burst
      else if procs_to_burst > 0 then Cores_below_burst procs_to_burst
      else Cores_above_burst procs_to_burst)"

text \<open>
  \<^verbatim>\<open>__is_burst_safe\<close>. \<^verbatim>\<open>show_subs.get(alloc)\<close> is \<^verbatim>\<open>None\<close> when the key is absent, and
  \<^verbatim>\<open>None.data\<close> raises AttributeError; the handler of the \<^verbatim>\<open>try\<close> is for TypeError only,
  which no statement of the body raises on these types, so the exception leaves the method.
\<close>

definition is_burst_safe ::
  "env \<Rightarrow> string \<Rightarrow> proc list \<Rightarrow> string \<Rightarrow> event list \<Rightarrow> (py_exc + bool) \<times> event list" where
  "is_burst_safe env alloc procs show_name evs =
     (let wc_ok = (case wasted_cores_threshold env of None \<Rightarrow> 100 | Some v \<Rightarrow> v) in
      if wc_ok < 0 then (Inr True, evs)
      else
        (case findShow env show_name of
           Inl e \<Rightarrow> (Inl e, evs)
         | Inr show_obj \<Rightarrow>
             (case show_subs show_obj alloc show_name alloc of
                None \<Rightarrow> (Inl AttributeError, evs)
              | Some sub \<Rightarrow>
                  (let procs_to_burst = s_burst sub - s_reserved_cores sub;
                       procs_to_redirect = py_int (sum_list (map p_reserved_cores procs));
                       wasted_cores = procs_to_redirect - procs_to_burst
                   in if wasted_cores \<le> wc_ok then (Inr True, evs)
                      else
                        (case ask env
                                (Burst_question alloc (burst_status_of procs_to_burst)
                                   procs_to_redirect wasted_cores) [] evs of
                           (a, evs') \<Rightarrow> (Inr a, evs'))))))"

subsection \<open>redirect\<close>

text \<open>
  \<^verbatim>\<open>__get_selected_procs_by_alloc\<close>: \<^verbatim>\<open>self.__hosts.get\<close> gives \<^verbatim>\<open>None\<close> for a text that is
  not a key, and \<^verbatim>\<open>None.get\<close> raises AttributeError.
\<close>

fun get_selected_procs_by_alloc ::
  "(string \<rightharpoonup> entry) \<Rightarrow> row list \<Rightarrow> (string \<times> proc list) list
     \<Rightarrow> py_exc + (string \<times> proc list) list" where
  "get_selected_procs_by_alloc hosts [] procs_by_alloc = Inr procs_by_alloc"
| "get_selected_procs_by_alloc hosts (item # items) procs_by_alloc =
     (case hosts (r_text item) of
        None \<Rightarrow> Inl AttributeError
      | Some entry \<Rightarrow>
          (let alloc = e_alloc entry;
               alloc_procs = (case map_of procs_by_alloc alloc of None \<Rightarrow> [] | Some ps \<Rightarrow> ps)
           in get_selected_procs_by_alloc hosts items
                (dict_set alloc (alloc_procs @ e_procs entry) procs_by_alloc)))"

text \<open>
  The loop over the allocation groups: the cross-show check, then the burst check; the
  first check that is not true ends it.
\<close>

fun check_allocs ::
  "env \<Rightarrow> (string \<times> proc list) list \<Rightarrow> string \<Rightarrow> event list
     \<Rightarrow> (py_exc + bool) \<times> event list" where
  "check_allocs env [] show_name evs = (Inr True, evs)"
| "check_allocs env ((alloc, procs) # groups) show_name evs =
     (case is_cross_show_safe env procs show_name evs of
        (Inl e, evs1) \<Rightarrow> (Inl e, evs1)
      | (Inr False, evs1) \<Rightarrow> (Inr False, evs1)
      | (Inr True, evs1) \<Rightarrow>
          (case is_burst_safe env alloc procs show_name evs1 of
             (Inl e, evs2) \<Rightarrow> (Inl e, evs2)
           | (Inr False, evs2) \<Rightarrow> (Inr False, evs2)
           | (Inr True, evs2) \<Rightarrow> check_allocs env groups show_name evs2))"

text \<open>
  The redirect loop. The selected items are the checked rows of the model, in the model's
  order, and the loop changes them in place: the model is walked and an unchecked row is
  passed over. \<^verbatim>\<open>entry["procs"]\<close> on a missing entry (\<^verbatim>\<open>None\<close>) raises TypeError outside the
  \<^verbatim>\<open>try\<close>. The result is the exception, the rows, whether \<^verbatim>\<open>errors\<close> is non-empty, and
  the events.
\<close>

fun redirect_items ::
  "env \<Rightarrow> (string \<rightharpoonup> entry) \<Rightarrow> job \<Rightarrow> row list \<Rightarrow> bool \<Rightarrow> event list
     \<Rightarrow> py_exc option \<times> row list \<times> bool \<times> event list" where
  "redirect_items env hosts job [] errors evs = (None, [], errors, evs)"
| "redirect_items env hosts job (item # items) errors evs =
     (if \<not> r_checked item then
        (case redirect_items env hosts job items errors evs of
           (x, items', errors', evs') \<Rightarrow> (x, item # items', errors', evs'))
      else
        (case hosts (r_text item) of
           None \<Rightarrow> (Some TypeError, item # items, errors, evs)
         | Some entry \<Rightarrow>
             (let r = redirectToJob env evs (e_host entry) (e_procs entry) job;
                  evs1 = evs @ [RedirectToJob (e_host entry) (e_procs entry) job r];
                  item1 = item\<lparr>r_retry_icon := True, r_enabled := False\<rparr>
              in (case redirect_items env hosts job items (errors \<or> r \<noteq> None) evs1 of
                    (x, items', errors', evs') \<Rightarrow> (x, item1 # items', errors', evs')))))"

text \<open>
  \<^verbatim>\<open>redirect\<close>. The class has no method \<^verbatim>\<open>__warn_and_stop\<close>: the call in the handler of
  EntityNotFoundException raises AttributeError before anything is shown.
\<close>

definition redirect :: "env \<Rightarrow> controls \<Rightarrow> widget \<Rightarrow> py_exc option \<times> widget" where
  "redirect env c w =
     (let selected_items = filter r_checked (w_model w) in
      if selected_items = [] then
        (None, w\<lparr>w_events := warn Nothing_selected (w_events w)\<rparr>)
      else
        (let job_name = getJob c in
         if job_name = [] then (None, w\<lparr>w_events := warn No_job_name (w_events w)\<rparr>)
         else
           (case findJob env job_name of
              Inl e \<Rightarrow>
                (if e = EntityNotFoundException then (Some AttributeError, w) else (Some e, w))
            | Inr job \<Rightarrow>
                (case get_selected_procs_by_alloc (w_hosts w) selected_items [] of
                   Inl e \<Rightarrow> (Some e, w)
                 | Inr procs_by_alloc \<Rightarrow>
                     (case check_allocs env procs_by_alloc (j_show job) (w_events w) of
                        (Inl e, evs) \<Rightarrow> (Some e, w\<lparr>w_events := evs\<rparr>)
                      | (Inr False, evs) \<Rightarrow> (None, w\<lparr>w_events := evs\<rparr>)
                      | (Inr True, evs) \<Rightarrow>
                          (case redirect_items env (w_hosts w) job (w_model w) False evs of
                             (Some e, rows, errors, evs') \<Rightarrow>
                               (Some e, w\<lparr>w_model := rows, w_events := evs'\<rparr>)
                           | (None, rows, errors, evs') \<Rightarrow>
                               (None, w\<lparr>w_model := rows,
                                        w_events := (if errors then warn Some_procs_failed evs'
                                                     else evs')\<rparr>)))))))"

text \<open>\<^verbatim>\<open>selectAll\<close> checks every row of the model.\<close>

definition selectAll :: "widget \<Rightarrow> widget" where
  "selectAll w = w\<lparr>w_model := map (\<lambda>item. item\<lparr>r_checked := True\<rparr>) (w_model w)\<rparr>"

subsection \<open>Notions used to state the properties of redirect\<close>

text \<open>A call of \<^verbatim>\<open>redirectToJob\<close> that raised.\<close>

fun raised :: "event \<Rightarrow> bool" where
  "raised (RedirectToJob h ps j r) = (r \<noteq> None)"
| "raised _ = False"

text \<open>What the redirect loop does to a row: a checked row gets the retry icon and is
  disabled, an unchecked row is left as it is.\<close>

definition mark_redirected :: "row \<Rightarrow> row" where
  "mark_redirected item =
     (if r_checked item then item\<lparr>r_retry_icon := True, r_enabled := False\<rparr> else item)"

text \<open>The jobs of the procs that are on another show than the target, in the order of the
  procs (for procs whose job the service returns).\<close>

definition other_show_jobs :: "env \<Rightarrow> proc list \<Rightarrow> string \<Rightarrow> job list" where
  "other_show_jobs env procs target_show =
     filter (\<lambda>j. j_show j \<noteq> target_show) (map (\<lambda>p. projr (proc_getJob env p)) procs)"

subsection \<open>update\<close>

text \<open>The state of the loop of \<^verbatim>\<open>update\<close>: \<^verbatim>\<open>hosts\<close>, \<^verbatim>\<open>ok\<close> and the rows of the model.\<close>

record ustate =
  u_hosts :: "string \<rightharpoonup> entry"
  u_ok :: int
  u_rows :: "row list"

text \<open>The entry made for a host that is seen for the first time.\<close>

definition new_entry :: "host \<Rightarrow> entry" where
  "new_entry cue_host =
     \<lparr>e_host = cue_host, e_procs = [], e_mem = h_idle_memory cue_host,
      e_cores = of_int (py_int (h_idle_cores cue_host)), e_time = 0, e_ok = False,
      e_alloc = h_alloc_name cue_host\<rparr>"

text \<open>The proc is appended and its memory, cores and run time are added; \<open>now\<close> is
  \<^verbatim>\<open>int(time.time())\<close>.\<close>

definition add_proc :: "int \<Rightarrow> proc \<Rightarrow> entry \<Rightarrow> entry" where
  "add_proc now p host =
     host\<lparr>e_procs := e_procs host @ [p],
          e_mem := e_mem host + p_reserved_memory p,
          e_cores := e_cores host + p_reserved_cores p,
          e_time := e_time host + (now - p_dispatch_time p)\<rparr>"

text \<open>The test that decides whether the host is added to the results.\<close>

definition thresholds_met :: "controls \<Rightarrow> entry \<Rightarrow> bool" where
  "thresholds_met c host =
     (e_cores host \<ge> of_int (getCores c) \<and> e_mem host \<ge> getMemory c \<and>
      e_time host < getCutoffTime c)"

text \<open>\<^verbatim>\<open>__addHost\<close> appends one row: a checkable item named after the host, unchecked and
  enabled, the columns of the entry, and a child row for each proc.\<close>

definition row_of :: "entry \<Rightarrow> row" where
  "row_of entry =
     \<lparr>r_text = h_name (e_host entry), r_checked = False, r_enabled = True,
      r_retry_icon = False, r_cores = e_cores entry, r_mem = e_mem entry,
      r_time = e_time entry, r_procs = e_procs entry\<rparr>"

definition addHost :: "entry \<Rightarrow> row list \<Rightarrow> row list" where
  "addHost entry rows = rows @ [row_of entry]"

text \<open>What an iteration of the loop ends with: the next iteration (also on \<^verbatim>\<open>continue\<close>),
  \<^verbatim>\<open>break\<close>, or an exception.\<close>

datatype flow =
    Next ustate
  | Break ustate
  | Raise py_exc ustate

text \<open>The filters of an iteration, in the order of the code. \<open>Inr True\<close>: the proc passes
  them all; \<open>Inr False\<close>: \<^verbatim>\<open>continue\<close>; \<open>Inl None\<close>: \<^verbatim>\<open>break\<close> at the limit;
  \<open>Inl (Some e)\<close>: \<^verbatim>\<open>re.match\<close> raised.\<close>

definition passes_filters ::
  "env \<Rightarrow> controls \<Rightarrow> int \<Rightarrow> proc \<Rightarrow> py_exc option + bool" where
  "passes_filters env c ok p =
     (let service_filter = getRequiredService c;
          group_filter = getIncludedGroups c;
          job_regex = getJobNameExcludeRegex c
      in if p_show_name p \<noteq> sh_name (getShow c) then Inr False
         else if p_job_name p = getJob c then Inr False
         else if p_redirect_target p \<noteq> [] then Inr False
         else if ok \<ge> getLimit c then Inl None
         else
           (case (if job_regex \<noteq> [] then re_match env job_regex (p_job_name p)
                  else Inr False) of
              Inl e \<Rightarrow> Inl (Some e)
            | Inr True \<Rightarrow> Inr False
            | Inr False \<Rightarrow>
                (if service_filter \<noteq> [] \<and> service_filter \<notin> set (p_services p) then Inr False
                 else if group_filter \<noteq> [] \<and> p_group_name p \<notin> set group_filter
                   then Inr False
                 else Inr True)))"

text \<open>The rest of the iteration, for a proc that passed the filters: the entry of its host
  is looked up or made (\<^verbatim>\<open>findHost\<close> may raise), a host that is ok is passed over, else
  the proc is gathered and the thresholds are tested.\<close>

definition gather :: "env \<Rightarrow> controls \<Rightarrow> int \<Rightarrow> proc \<Rightarrow> ustate \<Rightarrow> flow" where
  "gather env c now p st =
     (let name = split_first (p_name p) in
      (case (case u_hosts st name of
               Some entry \<Rightarrow> Inr entry
             | None \<Rightarrow> (case findHost env name of
                          Inl e \<Rightarrow> Inl e
                        | Inr cue_host \<Rightarrow> Inr (new_entry cue_host))) of
         Inl e \<Rightarrow> Raise e st
       | Inr host \<Rightarrow>
           (if e_ok host then Next (st\<lparr>u_hosts := (u_hosts st)(name \<mapsto> host)\<rparr>)
            else
              (let host1 = add_proc now p host in
               if thresholds_met c host1 then
                 Next (st\<lparr>u_hosts := (u_hosts st)(name \<mapsto> host1\<lparr>e_ok := True\<rparr>),
                          u_rows := addHost host1 (u_rows st),
                          u_ok := u_ok st + 1\<rparr>)
               else Next (st\<lparr>u_hosts := (u_hosts st)(name \<mapsto> host1)\<rparr>)))))"

definition update_proc :: "env \<Rightarrow> controls \<Rightarrow> nat \<Rightarrow> proc \<Rightarrow> ustate \<Rightarrow> flow" where
  "update_proc env c i p st =
     (case passes_filters env c (u_ok st) p of
        Inl None \<Rightarrow> Break st
      | Inl (Some e) \<Rightarrow> Raise e st
      | Inr False \<Rightarrow> Next st
      | Inr True \<Rightarrow> gather env c (time_time env i) p st)"

text \<open>The loop over the procs; \<open>i\<close> numbers the iterations.\<close>

fun update_loop ::
  "env \<Rightarrow> controls \<Rightarrow> nat \<Rightarrow> proc list \<Rightarrow> ustate \<Rightarrow> py_exc option \<times> ustate" where
  "update_loop env c i [] st = (None, st)"
| "update_loop env c i (p # ps) st =
     (if wasCanceled env i then (None, st)
      else (case update_proc env c i p st of
              Next st' \<Rightarrow> update_loop env c (Suc i) ps st'
            | Break st' \<Rightarrow> (None, st')
            | Raise e st' \<Rightarrow> (Some e, st')))"

definition init_ustate :: ustate where
  "init_ustate = \<lparr>u_hosts = Map.empty, u_ok = 0, u_rows = []\<rparr>"

text \<open>\<^verbatim>\<open>update\<close>: the model is cleared, the procs of the selected show and allocations are
  asked for, the loop runs, and \<^verbatim>\<open>self.__hosts\<close> is replaced when the loop ends without
  an exception.\<close>

definition update :: "env \<Rightarrow> controls \<Rightarrow> widget \<Rightarrow> py_exc option \<times> widget" where
  "update env c w =
     (case getProcs env [sh_name (getShow c)] (getSelected c) of
        Inl e \<Rightarrow> (Some e, w\<lparr>w_model := []\<rparr>)
      | Inr procs \<Rightarrow>
          (case update_loop env c 0 procs init_ustate of
             (Some e, st) \<Rightarrow> (Some e, w\<lparr>w_model := u_rows st\<rparr>)
           | (None, st) \<Rightarrow> (None, w\<lparr>w_hosts := u_hosts st, w_model := u_rows st\<rparr>)))"

subsection \<open>Notions used to state the properties of update\<close>

text \<open>The state an iteration of the loop ends with.\<close>

fun flow_state :: "flow \<Rightarrow> ustate" where
  "flow_state (Next st) = st"
| "flow_state (Break st) = st"
| "flow_state (Raise e st) = st"

text \<open>The procs of a run of the loop that starts with iteration \<open>i\<close>, each with the
  clock reading of its iteration.\<close>

definition iterations :: "env \<Rightarrow> nat \<Rightarrow> proc list \<Rightarrow> (int \<times> proc) list" where
  "iterations env i ps = zip (map (time_time env) [i..<i + length ps]) ps"

text \<open>The entry of a host after the given procs were gathered into it, each at its clock
  reading, before the thresholds are tested.\<close>

definition gathered_entry :: "host \<Rightarrow> (int \<times> proc) list \<Rightarrow> entry" where
  "gathered_entry h tps = foldl (\<lambda>e tp. add_proc (fst tp) (snd tp) e) (new_entry h) tps"

text \<open>A property of all gathered procs, in the entries and in the rows.\<close>

definition procs_all :: "(proc \<Rightarrow> bool) \<Rightarrow> ustate \<Rightarrow> bool" where
  "procs_all Q st \<longleftrightarrow>
     (\<forall>n e. u_hosts st n = Some e \<longrightarrow> (\<forall>p \<in> set (e_procs e). Q p)) \<and>
     (\<forall>r \<in> set (u_rows st). \<forall>p \<in> set (r_procs r). Q p)"

text \<open>
  The invariant of the loop. An entry holds a non-empty subsequence of the procs seen so
  far; it is ok exactly when the thresholds hold for it, and they hold after none of its
  procs but the last. The rows are the rows of the entries that are ok, one for each of
  their keys, and \<open>ok\<close> counts them within the limit.
\<close>

definition entry_inv :: "controls \<Rightarrow> (int \<times> proc) list \<Rightarrow> entry \<Rightarrow> bool" where
  "entry_inv c dn e \<longleftrightarrow>
     (\<exists>tps. subseq tps dn \<and> tps \<noteq> [] \<and>
        e = (gathered_entry (e_host e) tps)
              \<lparr>e_ok := thresholds_met c (gathered_entry (e_host e) tps)\<rparr> \<and>
        (\<forall>k. 0 < k \<and> k < length tps \<longrightarrow>
           \<not> thresholds_met c (gathered_entry (e_host e) (take k tps))))"

definition rows_inv :: "ustate \<Rightarrow> bool" where
  "rows_inv st \<longleftrightarrow>
     (\<exists>ks. distinct ks \<and>
        set ks = {n. \<exists>e. u_hosts st n = Some e \<and> e_ok e} \<and>
        u_rows st = map (\<lambda>k. row_of (the (u_hosts st k))) ks)"

definition loop_inv :: "controls \<Rightarrow> (int \<times> proc) list \<Rightarrow> ustate \<Rightarrow> bool" where
  "loop_inv c dn st \<longleftrightarrow>
     (\<forall>n e. u_hosts st n = Some e \<longrightarrow> entry_inv c dn e) \<and> rows_inv st \<and>
     u_ok st = int (length (u_rows st)) \<and> u_ok st \<le> max 0 (getLimit c)"

text \<open>Every entry is stored under the name of its host.\<close>

definition hosts_named :: "ustate \<Rightarrow> bool" where
  "hosts_named st \<longleftrightarrow> (\<forall>n e. u_hosts st n = Some e \<longrightarrow> h_name (e_host e) = n)"

subsection \<open>Example data\<close>

definition ex_layers :: "layer list" where
  "ex_layers = [\<lparr>min_cores = 5 / 2, min_memory = 4194304\<rparr>,
                \<lparr>min_cores = 1 / 2, min_memory = 8388608\<rparr>]"

definition ex_job :: job where
  "ex_job = \<lparr>j_name = ''pipe-target'', j_show = ''pipe'', j_layers = ex_layers\<rparr>"

definition ex_show :: cue_show where
  "ex_show = \<lparr>sh_name = ''pipe'',
     sh_subscriptions = [\<lparr>s_name = ''lax.spinux.pipe'', s_allocation_name = ''lax.spinux'',
                          s_burst = 10, s_reserved_cores = 4\<rparr>]\<rparr>"

definition ex_host :: host where
  "ex_host = \<lparr>h_name = ''host1'', h_idle_memory = 1048576, h_idle_cores = 1 / 2,
              h_alloc_name = ''lax.spinux''\<rparr>"

definition ex_proc :: proc where
  "ex_proc = \<lparr>p_name = ''host1/1.00/0'', p_show_name = ''pipe'', p_job_name = ''pipe-other'',
     p_redirect_target = [], p_services = [''maya''], p_group_name = ''g1'',
     p_reserved_memory = 4194304, p_reserved_cores = 1, p_dispatch_time = 1000\<rparr>"

definition ex_other_job :: job where
  "ex_other_job = \<lparr>j_name = ''pipe-other'', j_show = ''pipe'', j_layers = []\<rparr>"

text \<open>A service with one show, one host and two jobs; the user answers no, a redirect
  succeeds, nothing is cancelled and the clock stands at 2000.\<close>

definition ex_env :: env where
  "ex_env =
     \<lparr>findJob = (\<lambda>n. if n = ''pipe-target'' then Inr ex_job
                      else if n = ''broken'' then Inl OtherCueException
                      else Inl EntityNotFoundException),
      findShow = (\<lambda>n. if n = ''pipe'' then Inr ex_show else Inl EntityNotFoundException),
      findHost = (\<lambda>n. if n = ''host1'' then Inr ex_host else Inl EntityNotFoundException),
      getProcs = (\<lambda>shows allocs. Inr [ex_proc]),
      proc_getJob = (\<lambda>p. Inr ex_other_job),
      redirectToJob = (\<lambda>evs h ps j. None),
      questionBoxYesNo = (\<lambda>evs m items. False),
      wasted_cores_threshold = None,
      re_match = (\<lambda>r s. Inr False),
      time_time = (\<lambda>i. 2000),
      wasCanceled = (\<lambda>i. False)\<rparr>"

definition ex_controls :: controls where
  "ex_controls =
     \<lparr>job_box = ''pipe-target'', cores_spin = 1, mem_spin = 4, limit_spin = 10,
      prh_seconds = 36000, require_services = [], exclude_regex = [], include_group_btn = [],
      alloc_filter = [''lax.spinux''], current_show = ex_show,
      show_combo = [''edu'', ''pipe'']\<rparr>"

definition ex_entry :: entry where
  "ex_entry = (add_proc 2000 ex_proc (new_entry ex_host))\<lparr>e_ok := True\<rparr>"

text \<open>The widget after a search that found \<open>host1\<close>, with the row of the host checked.\<close>

definition ex_widget :: widget where
  "ex_widget =
     \<lparr>w_hosts = [''host1'' \<mapsto> ex_entry],
      w_model = [(row_of ex_entry)\<lparr>r_checked := True\<rparr>],
      w_events = []\<rparr>"

text \<open>The same service when the proc's job is on the show \<open>edu\<close>.\<close>

definition ex_env_cross :: env where
  "ex_env_cross = ex_env\<lparr>proc_getJob := (\<lambda>p. Inr (ex_other_job\<lparr>j_show := ''edu''\<rparr>))\<rparr>"

text \<open>The same service when every call of \<^verbatim>\<open>redirectToJob\<close> raises.\<close>

definition ex_env_fail :: env where
  "ex_env_fail = ex_env\<lparr>redirectToJob := (\<lambda>evs h ps j. Some ''failed'')\<rparr>"

text \<open>A second proc on \<open>host1\<close>, with a fractional number of cores; controls with all
  job filters set; services that return both procs, or the second only; the widget before
  a search.\<close>

definition ex_proc2 :: proc where
  "ex_proc2 = ex_proc\<lparr>p_name := ''host1/2.00/1'', p_reserved_cores := 3 / 2\<rparr>"

definition ex_controls_filters :: controls where
  "ex_controls_filters =
     ex_controls\<lparr>require_services := '' maya '', exclude_regex := ''test'',
                  include_group_btn := [''g1'', ''g2'']\<rparr>"

definition ex_env_two :: env where
  "ex_env_two = ex_env\<lparr>getProcs := (\<lambda>shows allocs. Inr [ex_proc, ex_proc2])\<rparr>"


definition ex_widget0 :: widget where
  "ex_widget0 = \<lparr>w_hosts = Map.empty, w_model = [], w_events = []\<rparr>"

text \<open>A service that returns a proc with a redirect target, a proc of the target job
  and \<open>ex_proc\<close>.\<close>

definition ex_env_skip :: env where
  "ex_env_skip =
     ex_env\<lparr>getProcs := (\<lambda>shows allocs.
        Inr [ex_proc\<lparr>p_redirect_target := ''pipe-elsewhere''\<rparr>,
             ex_proc\<lparr>p_job_name := ''pipe-target''\<rparr>,
             ex_proc])\<rparr>"

text \<open>The state of the loop after \<open>ex_proc\<close> made \<open>host1\<close> ok; controls that ask for
  two cores.\<close>

definition ex_ustate :: ustate where
  "ex_ustate = \<lparr>u_hosts = [''host1'' \<mapsto> ex_entry], u_ok = 1, u_rows = [row_of ex_entry]\<rparr>"


text \<open>The same service when the job of \<open>ex_proc\<close> is in the cue too.\<close>

definition ex_env_jobs :: env where
  "ex_env_jobs =
     ex_env\<lparr>findJob := (\<lambda>n. if n = ''pipe-other'' then Inr ex_other_job
                               else findJob ex_env n)\<rparr>"

section \<open>Verified properties\<close>

subsection \<open>Facts about detect\<close>

lemma detect_layers_fold:
  "detect_layers ls mc mm = (fold max (map min_cores ls) mc, fold max (map min_memory ls) mm)"
proof (induction ls arbitrary: mc mm)
  case Nil
  show ?case by simp
next
  case (Cons l ls)
  have c: "(if mc < min_cores l then min_cores l else mc) = max (min_cores l) mc"
    by (simp add: max_def)
  have m: "(if mm < min_memory l then min_memory l else mm) = max (min_memory l) mm"
    by (simp add: max_def)
  show ?case by (simp only: detect_layers.simps Cons.IH c m list.map fold_simps)
qed

lemma fold_max_Max:
  fixes a :: "'a::linorder"
  shows "fold max xs a = Max (insert a (set xs))"
  using Max.set_eq_fold [of a xs] by simp

lemma detect_layers_Max:
  "detect_layers ls mc mm =
     (Max (insert mc (min_cores ` set ls)), Max (insert mm (min_memory ` set ls)))"
  by (simp add: detect_layers_fold fold_max_Max)


lemma findText_nonneg_iff: "0 \<le> findText xs t \<longleftrightarrow> t \<in> set xs"
  by (induction xs) (auto simp: Let_def)

lemma findText_ge: "- 1 \<le> findText xs t"
  by (induction xs) (auto simp: Let_def)

lemma findText_mem: "t \<in> set xs \<Longrightarrow> 0 \<le> findText xs t"
  by (simp add: findText_nonneg_iff)

lemma findText_nth: "t \<in> set xs \<Longrightarrow> xs ! nat (findText xs t) = t"
proof (induction xs)
  case Nil
  then show ?case by simp
next
  case (Cons x xs)
  show ?case
  proof (cases "x = t")
    case True
    then show ?thesis by simp
  next
    case False
    with Cons.prems have mem: "t \<in> set xs" by simp
    then have "0 \<le> findText xs t" by (rule findText_mem)
    then have "nat (findText xs t + 1) = Suc (nat (findText xs t))" by simp
    with False mem Cons.IH \<open>0 \<le> findText xs t\<close> show ?thesis
      by (simp add: Let_def)
  qed
qed

text \<open>
  C10. When \<^verbatim>\<open>findJob\<close> returns the job named in the job box, \<^verbatim>\<open>detect\<close> calls
  \<^verbatim>\<open>setValue\<close> of the cores spin box with the integer part of the largest \<^verbatim>\<open>min_cores\<close> of
  the job's layers, taken from 1.0 upwards (so it is at least 1), \<^verbatim>\<open>setValue\<close> of the memory
  spin box with the largest \<^verbatim>\<open>min_memory\<close>, taken from 0 upwards, divided by 1048576 (the
  largest \<^verbatim>\<open>min_memory\<close> of the layers as soon as one layer has a non-negative one), and
  \<^verbatim>\<open>setCurrentIndex\<close> of the show combo with the index \<^verbatim>\<open>findText\<close> gives for the job's show,
  which is the place of that show when the combo lists it. When \<^verbatim>\<open>findJob\<close> raises a
  CueException, no call is made on any widget and the method returns normally.
\<close>

theorem detect_populates_controls:
  "(findJob env (job_box c) = Inr job \<longrightarrow>
      detect env c =
        (None,
         [Cores_setValue (py_int (Max (insert 1 (min_cores ` set (j_layers job))))),
          Mem_setValue (of_int (Max (insert 0 (min_memory ` set (j_layers job)))) / 1048576),
          Show_setCurrentIndex (findText (show_combo c) (j_show job))]) \<and>
      1 \<le> py_int (Max (insert 1 (min_cores ` set (j_layers job)))) \<and>
      ((\<exists>l \<in> set (j_layers job). 0 \<le> min_memory l) \<longrightarrow>
         Max (insert 0 (min_memory ` set (j_layers job))) =
         Max (min_memory ` set (j_layers job))) \<and>
      (j_show job \<in> set (show_combo c) \<longrightarrow>
         0 \<le> findText (show_combo c) (j_show job) \<and>
         show_combo c ! nat (findText (show_combo c) (j_show job)) = j_show job)) \<and>
   (\<forall>e. findJob env (job_box c) = Inl e \<and> is_CueException e \<longrightarrow>
      detect env c = (None, []))"
proof (intro conjI impI allI)
  assume found: "findJob env (job_box c) = Inr job"
  show "detect env c =
        (None,
         [Cores_setValue (py_int (Max (insert 1 (min_cores ` set (j_layers job))))),
          Mem_setValue (of_int (Max (insert 0 (min_memory ` set (j_layers job)))) / 1048576),
          Show_setCurrentIndex (findText (show_combo c) (j_show job))])"
    using found by (simp add: detect_def detect_layers_Max)
  have one: "1 \<le> Max (insert (1::rat) (min_cores ` set (j_layers job)))"
    by (rule Max_ge) simp_all
  then have "0 \<le> Max (insert (1::rat) (min_cores ` set (j_layers job)))"
    by linarith
  then have "py_int (Max (insert 1 (min_cores ` set (j_layers job)))) =
             \<lfloor>Max (insert 1 (min_cores ` set (j_layers job)))\<rfloor>"
    by (simp only: py_int_def if_True)
  moreover have "1 \<le> \<lfloor>Max (insert (1::rat) (min_cores ` set (j_layers job)))\<rfloor>"
    using one by (simp only: le_floor_iff of_int_1)
  ultimately show "1 \<le> py_int (Max (insert 1 (min_cores ` set (j_layers job))))"
    by (simp only:)
next
  assume "\<exists>l \<in> set (j_layers job). 0 \<le> min_memory l"
  then obtain l where l: "l \<in> set (j_layers job)" "0 \<le> min_memory l" by blast
  have "min_memory l \<le> Max (min_memory ` set (j_layers job))"
    using l(1) by (intro Max_ge) simp_all
  with l(2) have "0 \<le> Max (min_memory ` set (j_layers job))" by linarith
  moreover have "min_memory ` set (j_layers job) \<noteq> {}" using l(1) by auto
  ultimately show "Max (insert 0 (min_memory ` set (j_layers job))) =
                   Max (min_memory ` set (j_layers job))"
    by (simp add: max_def)
next
  assume "j_show job \<in> set (show_combo c)"
  then show "0 \<le> findText (show_combo c) (j_show job)"
    by (rule findText_mem)
next
  assume "j_show job \<in> set (show_combo c)"
  then show "show_combo c ! nat (findText (show_combo c) (j_show job)) = j_show job"
    by (rule findText_nth)
next
  fix e
  assume "findJob env (job_box c) = Inl e \<and> is_CueException e"
  then show "detect env c = (None, [])"
    by (simp add: detect_def)
qed

theorem detect_populates_controls_witness:
  "findJob ex_env (job_box ex_controls) = Inr ex_job \<and>
   detect ex_env ex_controls =
     (None, [Cores_setValue 2, Mem_setValue 8, Show_setCurrentIndex 1]) \<and>
   (\<exists>l \<in> set (j_layers ex_job). 0 \<le> min_memory l) \<and>
   j_show ex_job \<in> set (show_combo ex_controls) \<and>
   show_combo ex_controls ! nat (findText (show_combo ex_controls) (j_show ex_job)) = ''pipe'' \<and>
   findJob ex_env (job_box (ex_controls\<lparr>job_box := ''broken''\<rparr>)) = Inl OtherCueException \<and>
   is_CueException OtherCueException \<and>
   detect ex_env (ex_controls\<lparr>job_box := ''broken''\<rparr>) = (None, [])"
proof -
  have fl: "\<lfloor>5 / 2 :: rat\<rfloor> = 2"
    by (rule floor_unique) simp_all
  show ?thesis
    using detect_populates_controls [of ex_env ex_controls ex_job]
      detect_populates_controls [of ex_env "ex_controls\<lparr>job_box := ''broken''\<rparr>" ex_job]
    by (simp add: ex_env_def ex_controls_def ex_job_def ex_layers_def py_int_def fl)
qed

subsection \<open>The safety checks\<close>

lemma xshow_jobs_total:
  "\<forall>p \<in> set procs. \<exists>j. proc_getJob env p = Inr j \<Longrightarrow>
   xshow_jobs env procs t = Inr (other_show_jobs env procs t)"
  by (induction procs) (auto simp: other_show_jobs_def)

text \<open>
  C6. When the service returns the job of every proc: if every proc's job is on the
  target show, \<^verbatim>\<open>__is_cross_show_safe\<close> returns true and shows nothing; if the job of some
  proc is on another show, it asks the cross-show question once, with the names of the
  jobs on other shows as its items, and returns the user's answer.
\<close>

theorem is_cross_show_safe_answer:
  "(\<forall>p \<in> set procs. \<exists>j. proc_getJob env p = Inr j) \<longrightarrow>
     ((\<forall>p \<in> set procs. j_show (projr (proc_getJob env p)) = target_show) \<longrightarrow>
        is_cross_show_safe env procs target_show evs = (Inr True, evs)) \<and>
     ((\<exists>p \<in> set procs. j_show (projr (proc_getJob env p)) \<noteq> target_show) \<longrightarrow>
        is_cross_show_safe env procs target_show evs =
          (Inr (questionBoxYesNo env evs
                  (Cross_show_question (map j_show (other_show_jobs env procs target_show)))
                  (map j_name (other_show_jobs env procs target_show))),
           evs @ [QuestionBoxYesNo
                    (Cross_show_question (map j_show (other_show_jobs env procs target_show)))
                    (map j_name (other_show_jobs env procs target_show))
                    (questionBoxYesNo env evs
                       (Cross_show_question
                          (map j_show (other_show_jobs env procs target_show)))
                       (map j_name (other_show_jobs env procs target_show)))]))"
proof (intro impI conjI)
  assume tot: "\<forall>p \<in> set procs. \<exists>j. proc_getJob env p = Inr j"
  assume same: "\<forall>p \<in> set procs. j_show (projr (proc_getJob env p)) = target_show"
  then have "other_show_jobs env procs target_show = []"
    by (simp add: other_show_jobs_def filter_empty_conv)
  then show "is_cross_show_safe env procs target_show evs = (Inr True, evs)"
    by (simp add: is_cross_show_safe_def xshow_jobs_total [OF tot])
next
  assume tot: "\<forall>p \<in> set procs. \<exists>j. proc_getJob env p = Inr j"
  let ?js = "other_show_jobs env procs target_show"
  assume "\<exists>p \<in> set procs. j_show (projr (proc_getJob env p)) \<noteq> target_show"
  then have "?js \<noteq> []"
    by (auto simp: other_show_jobs_def filter_empty_conv)
  then show "is_cross_show_safe env procs target_show evs =
          (Inr (questionBoxYesNo env evs (Cross_show_question (map j_show ?js)) (map j_name ?js)),
           evs @ [QuestionBoxYesNo (Cross_show_question (map j_show ?js)) (map j_name ?js)
                    (questionBoxYesNo env evs (Cross_show_question (map j_show ?js))
                       (map j_name ?js))])"
    by (simp add: is_cross_show_safe_def xshow_jobs_total [OF tot] ask_def Let_def)
qed

theorem is_cross_show_safe_answer_witness:
  "proc_getJob ex_env ex_proc = Inr ex_other_job \<and>
   j_show (projr (proc_getJob ex_env ex_proc)) = ''pipe'' \<and>
   is_cross_show_safe ex_env [ex_proc] ''pipe'' [] = (Inr True, []) \<and>
   proc_getJob ex_env_cross ex_proc = Inr (ex_other_job\<lparr>j_show := ''edu''\<rparr>) \<and>
   j_show (projr (proc_getJob ex_env_cross ex_proc)) \<noteq> ''pipe'' \<and>
   is_cross_show_safe ex_env_cross [ex_proc] ''pipe'' [] =
     (Inr False, [QuestionBoxYesNo (Cross_show_question [''edu'']) [''pipe-other''] False])"
  using is_cross_show_safe_answer [of "[ex_proc]" ex_env "''pipe''" "[]"]
    is_cross_show_safe_answer [of "[ex_proc]" ex_env_cross "''pipe''" "[]"]
  by (simp add: ex_env_def ex_env_cross_def ex_other_job_def other_show_jobs_def)

lemma is_burst_safe_disabled:
  "wasted_cores_threshold env = Some v \<Longrightarrow> v < 0 \<Longrightarrow>
   is_burst_safe env alloc procs show_name evs = (Inr True, evs)"
  by (simp add: is_burst_safe_def)

lemma is_burst_safe_no_key:
  "(case wasted_cores_threshold env of None \<Rightarrow> 100 | Some v \<Rightarrow> v) \<ge> 0 \<Longrightarrow>
   findShow env show_name = Inr show_obj \<Longrightarrow>
   show_subs show_obj alloc show_name alloc = None \<Longrightarrow>
   is_burst_safe env alloc procs show_name evs = (Inl AttributeError, evs)"
  by (simp add: is_burst_safe_def Let_def)

lemma is_burst_safe_subscribed:
  assumes "(case wasted_cores_threshold env of None \<Rightarrow> 100 | Some v \<Rightarrow> v) = wc_ok"
    and "0 \<le> wc_ok"
    and "findShow env show_name = Inr show_obj"
    and "show_subs show_obj alloc show_name alloc = Some sub"
  shows "is_burst_safe env alloc procs show_name evs =
     (if py_int (sum_list (map p_reserved_cores procs)) - (s_burst sub - s_reserved_cores sub)
           \<le> wc_ok
      then (Inr True, evs)
      else (Inr (questionBoxYesNo env evs
                   (Burst_question alloc (burst_status_of (s_burst sub - s_reserved_cores sub))
                      (py_int (sum_list (map p_reserved_cores procs)))
                      (py_int (sum_list (map p_reserved_cores procs)) -
                         (s_burst sub - s_reserved_cores sub))) []),
            evs @ [QuestionBoxYesNo
                     (Burst_question alloc (burst_status_of (s_burst sub - s_reserved_cores sub))
                        (py_int (sum_list (map p_reserved_cores procs)))
                        (py_int (sum_list (map p_reserved_cores procs)) -
                           (s_burst sub - s_reserved_cores sub))) []
                     (questionBoxYesNo env evs
                        (Burst_question alloc
                           (burst_status_of (s_burst sub - s_reserved_cores sub))
                           (py_int (sum_list (map p_reserved_cores procs)))
                           (py_int (sum_list (map p_reserved_cores procs)) -
                              (s_burst sub - s_reserved_cores sub))) [])]))"
  using assms by (auto simp: is_burst_safe_def Let_def ask_def)

text \<open>
  C7, at a show without a subscription to the allocation: the show \<open>pipe\<close> subscribes to
  \<open>lax.spinux\<close> only, the threshold is the default 100, and the check is asked about the
  allocation \<open>lax.cloud\<close>. No warning is shown and no value is returned: AttributeError
  leaves the method.
\<close>

theorem is_burst_safe_missing_subscription_raises:
  "is_burst_safe ex_env ''lax.cloud'' [ex_proc] ''pipe'' [] = (Inl AttributeError, [])"
  by (simp add: is_burst_safe_def ex_env_def ex_show_def show_subs_def dict_of_pairs_def)

subsection \<open>redirect\<close>

lemma ask_appends:
  "ask env m items evs = (a, evs') \<Longrightarrow> evs' = evs @ [QuestionBoxYesNo m items a]"
  by (auto simp: ask_def Let_def)

lemma is_cross_show_safe_appends:
  "is_cross_show_safe env procs t evs = (r, evs') \<Longrightarrow>
   \<exists>new. evs' = evs @ new \<and> (\<forall>e \<in> set new. \<not> is_RedirectToJob e)"
  by (auto simp: is_cross_show_safe_def ask_def Let_def split: sum.splits if_splits)

lemma is_burst_safe_appends:
  "is_burst_safe env alloc procs t evs = (r, evs') \<Longrightarrow>
   \<exists>new. evs' = evs @ new \<and> (\<forall>e \<in> set new. \<not> is_RedirectToJob e)"
  by (auto simp: is_burst_safe_def ask_def Let_def split: sum.splits if_splits option.splits)

lemma check_allocs_appends:
  "check_allocs env groups t evs = (r, evs') \<Longrightarrow>
   \<exists>new. evs' = evs @ new \<and> (\<forall>e \<in> set new. \<not> is_RedirectToJob e)"
proof (induction groups arbitrary: evs)
  case Nil
  then show ?case by simp
next
  case (Cons g groups)
  obtain alloc procs where g: "g = (alloc, procs)" by (cases g)
  obtain r1 evs1 where c1: "is_cross_show_safe env procs t evs = (r1, evs1)"
    by (cases "is_cross_show_safe env procs t evs")
  from is_cross_show_safe_appends [OF c1] obtain new1 where
    n1: "evs1 = evs @ new1" "\<forall>e \<in> set new1. \<not> is_RedirectToJob e" by blast
  show ?case
  proof (cases "r1 = Inr True")
    case False
    with Cons.prems g c1 have "evs' = evs1"
      by (auto split: sum.splits bool.splits)
    with n1 show ?thesis by blast
  next
    case True
    obtain r2 evs2 where c2: "is_burst_safe env alloc procs t evs1 = (r2, evs2)"
      by (cases "is_burst_safe env alloc procs t evs1")
    from is_burst_safe_appends [OF c2] obtain new2 where
      n2: "evs2 = evs1 @ new2" "\<forall>e \<in> set new2. \<not> is_RedirectToJob e" by blast
    show ?thesis
    proof (cases "r2 = Inr True")
      case False
      with Cons.prems g c1 c2 True have "evs' = evs2"
        by (auto split: sum.splits bool.splits)
      with n1 n2 show ?thesis by auto
    next
      case r2: True
      with Cons.prems g c1 c2 True have "check_allocs env groups t evs2 = (r, evs')"
        by simp
      from Cons.IH [OF this] obtain new3 where
        "evs' = evs2 @ new3" "\<forall>e \<in> set new3. \<not> is_RedirectToJob e" by blast
      with n1 n2 show ?thesis by auto
    qed
  qed
qed

lemma check_allocs_True_prefix:
  "check_allocs env groups t evs = (Inr True, evs') \<Longrightarrow> k < length groups \<Longrightarrow>
   \<exists>evs1.
     is_cross_show_safe env (snd (groups ! k)) t (snd (check_allocs env (take k groups) t evs))
       = (Inr True, evs1) \<and>
     is_burst_safe env (fst (groups ! k)) (snd (groups ! k)) t evs1
       = (Inr True, snd (check_allocs env (take (Suc k) groups) t evs))"
proof (induction groups arbitrary: evs k)
  case Nil
  then show ?case by simp
next
  case (Cons g groups)
  obtain alloc procs where g: "g = (alloc, procs)" by (cases g)
  from Cons.prems(1) g obtain evs1 evs2 where
    c1: "is_cross_show_safe env procs t evs = (Inr True, evs1)" and
    c2: "is_burst_safe env alloc procs t evs1 = (Inr True, evs2)" and
    rest: "check_allocs env groups t evs2 = (Inr True, evs')"
    by (auto split: prod.splits sum.splits bool.splits)
  show ?case
  proof (cases k)
    case 0
    have "check_allocs env (take 0 groups) t evs2 = (Inr True, evs2)" by simp
    with 0 g c1 c2 show ?thesis by simp
  next
    case (Suc k')
    with Cons.prems(2) have k': "k' < length groups" by simp
    from Cons.IH [OF rest k'] Suc g c1 c2 show ?thesis by simp
  qed
qed

lemma check_allocs_fails_at:
  "k < length groups \<Longrightarrow>
   check_allocs env (take k groups) t evs = (Inr True, evs_k) \<Longrightarrow>
   is_cross_show_safe env (snd (groups ! k)) t evs_k = (r1, evs1) \<Longrightarrow>
   (r1 \<noteq> Inr True \<and> r = r1 \<and> evs' = evs1) \<or>
   (r1 = Inr True \<and> is_burst_safe env (fst (groups ! k)) (snd (groups ! k)) t evs1 = (r, evs')
      \<and> r \<noteq> Inr True) \<Longrightarrow>
   check_allocs env groups t evs = (r, evs')"
proof (induction groups arbitrary: evs k)
  case Nil
  then show ?case by simp
next
  case (Cons g groups)
  obtain alloc procs where g: "g = (alloc, procs)" by (cases g)
  show ?case
  proof (cases k)
    case 0
    with Cons.prems g show ?thesis
      by (cases r1; cases r) (auto split: sum.splits bool.splits)
  next
    case (Suc k')
    with Cons.prems(1) have k': "k' < length groups" by simp
    from Cons.prems(2) Suc g obtain e1 e2 where
      c1: "is_cross_show_safe env procs t evs = (Inr True, e1)" and
      c2: "is_burst_safe env alloc procs t e1 = (Inr True, e2)" and
      rest: "check_allocs env (take k' groups) t e2 = (Inr True, evs_k)"
      by (auto split: prod.splits sum.splits bool.splits)
    have "check_allocs env groups t e2 = (r, evs')"
      using Cons.IH [OF k' rest] Cons.prems(3,4) Suc by simp
    with g c1 c2 show ?thesis by simp
  qed
qed


lemma get_selected_entries:
  "get_selected_procs_by_alloc hosts items acc = Inr groups \<Longrightarrow>
   \<forall>item \<in> set items. hosts (r_text item) \<noteq> None"
  by (induction items arbitrary: acc) (auto simp: Let_def split: option.splits)

lemma redirect_items_calls:
  "\<forall>item \<in> set rows. r_checked item \<longrightarrow> hosts (r_text item) \<noteq> None \<Longrightarrow>
   \<exists>cs. redirect_items env hosts job rows errors evs =
          (None, map mark_redirected rows, errors \<or> (\<exists>e \<in> set cs. raised e), evs @ cs) \<and>
        length cs = length (filter r_checked rows) \<and>
        (\<forall>i < length cs. \<exists>entry.
           hosts (r_text (filter r_checked rows ! i)) = Some entry \<and>
           cs ! i = RedirectToJob (e_host entry) (e_procs entry) job
                      (redirectToJob env (evs @ take i cs) (e_host entry) (e_procs entry) job))"
proof (induction rows arbitrary: errors evs)
  case Nil
  show ?case by simp
next
  case (Cons item rows)
  from Cons.prems have rest: "\<forall>item \<in> set rows. r_checked item \<longrightarrow> hosts (r_text item) \<noteq> None"
    by simp
  show ?case
  proof (cases "r_checked item")
    case False
    from Cons.IH [OF rest, of errors evs] obtain cs where
      cs: "redirect_items env hosts job rows errors evs =
             (None, map mark_redirected rows, errors \<or> (\<exists>e \<in> set cs. raised e), evs @ cs)"
          "length cs = length (filter r_checked rows)"
          "\<forall>i < length cs. \<exists>entry.
             hosts (r_text (filter r_checked rows ! i)) = Some entry \<and>
             cs ! i = RedirectToJob (e_host entry) (e_procs entry) job
                        (redirectToJob env (evs @ take i cs) (e_host entry) (e_procs entry) job)"
      by blast
    have "redirect_items env hosts job (item # rows) errors evs =
            (None, map mark_redirected (item # rows),
             errors \<or> (\<exists>e \<in> set cs. raised e), evs @ cs)"
      using False cs(1) by (simp add: mark_redirected_def)
    with cs(2,3) False show ?thesis by auto
  next
    case True
    with Cons.prems obtain entry where entry: "hosts (r_text item) = Some entry" by auto
    let ?r = "redirectToJob env evs (e_host entry) (e_procs entry) job"
    let ?c = "RedirectToJob (e_host entry) (e_procs entry) job ?r"
    from Cons.IH [OF rest, of "errors \<or> ?r \<noteq> None" "evs @ [?c]"] obtain cs where
      cs: "redirect_items env hosts job rows (errors \<or> ?r \<noteq> None) (evs @ [?c]) =
             (None, map mark_redirected rows,
              (errors \<or> ?r \<noteq> None) \<or> (\<exists>e \<in> set cs. raised e), (evs @ [?c]) @ cs)"
          "length cs = length (filter r_checked rows)"
          "\<forall>i < length cs. \<exists>entry.
             hosts (r_text (filter r_checked rows ! i)) = Some entry \<and>
             cs ! i = RedirectToJob (e_host entry) (e_procs entry) job
                        (redirectToJob env ((evs @ [?c]) @ take i cs)
                           (e_host entry) (e_procs entry) job)"
      by blast
    have run: "redirect_items env hosts job (item # rows) errors evs =
            (None, map mark_redirected (item # rows),
             errors \<or> (\<exists>e \<in> set (?c # cs). raised e), evs @ (?c # cs))"
      using True entry cs(1) by (auto simp: mark_redirected_def Let_def)
    have len: "length (?c # cs) = length (filter r_checked (item # rows))"
      using True cs(2) by simp
    have nth: "\<exists>entry.
           hosts (r_text (filter r_checked (item # rows) ! i)) = Some entry \<and>
           (?c # cs) ! i = RedirectToJob (e_host entry) (e_procs entry) job
                      (redirectToJob env (evs @ take i (?c # cs))
                         (e_host entry) (e_procs entry) job)"
      if i: "i < length (?c # cs)" for i
    proof (cases i)
      case 0
      with True entry show ?thesis by simp
    next
      case (Suc i')
      with i have "i' < length cs" by simp
      with cs(3) obtain en where
        "hosts (r_text (filter r_checked rows ! i')) = Some en"
        "cs ! i' = RedirectToJob (e_host en) (e_procs en) job
                        (redirectToJob env ((evs @ [?c]) @ take i' cs)
                           (e_host en) (e_procs en) job)"
        by blast
      with Suc True show ?thesis by simp
    qed
    from run len nth show ?thesis by blast
  qed
qed

lemma redirect_after_checks:
  assumes sel: "filter r_checked (w_model w) \<noteq> []"
    and jobname: "getJob c \<noteq> []"
    and found: "findJob env (getJob c) = Inr job"
    and groups: "get_selected_procs_by_alloc (w_hosts w) (filter r_checked (w_model w)) []
                   = Inr groups"
    and checks: "check_allocs env groups (j_show job) (w_events w) = (Inr True, evs)"
  shows "\<exists>cs.
     redirect env c w =
       (None, w\<lparr>w_model := map mark_redirected (w_model w),
                w_events := evs @ cs @
                  (if \<exists>e \<in> set cs. raised e then [Warn Some_procs_failed] else [])\<rparr>) \<and>
     length cs = length (filter r_checked (w_model w)) \<and>
     (\<forall>i < length cs. \<exists>entry.
        w_hosts w (r_text (filter r_checked (w_model w) ! i)) = Some entry \<and>
        cs ! i = RedirectToJob (e_host entry) (e_procs entry) job
                   (redirectToJob env (evs @ take i cs) (e_host entry) (e_procs entry) job))"
proof -
  have "\<forall>item \<in> set (w_model w). r_checked item \<longrightarrow> w_hosts w (r_text item) \<noteq> None"
    using get_selected_entries [OF groups] by simp
  from redirect_items_calls [OF this, of env job False evs] obtain cs where
    cs: "redirect_items env (w_hosts w) job (w_model w) False evs =
          (None, map mark_redirected (w_model w), (\<exists>e \<in> set cs. raised e), evs @ cs)"
        "length cs = length (filter r_checked (w_model w))"
        "\<forall>i < length cs. \<exists>entry.
           w_hosts w (r_text (filter r_checked (w_model w) ! i)) = Some entry \<and>
           cs ! i = RedirectToJob (e_host entry) (e_procs entry) job
                      (redirectToJob env (evs @ take i cs) (e_host entry) (e_procs entry) job)"
    by auto
  have "redirect env c w =
       (None, w\<lparr>w_model := map mark_redirected (w_model w),
                w_events := evs @ cs @
                  (if \<exists>e \<in> set cs. raised e then [Warn Some_procs_failed] else [])\<rparr>)"
    using sel jobname found groups checks cs(1)
    by (simp add: redirect_def Let_def warn_def)
  with cs(2,3) show ?thesis by blast
qed


text \<open>
  C1. The events of an invocation of \<^verbatim>\<open>redirect\<close> are appended to those before it. If a
  call of \<^verbatim>\<open>redirectToJob\<close> is among them, then rows were selected, the job box named a job
  the service found, and for every allocation group of the selected procs, in the order of
  the loop, the cross-show check returned true and then the burst check returned true. If
  for some group, after every group before it passed, one of the two checks returns false,
  \<^verbatim>\<open>redirect\<close> returns at once: only the events up to that check were added, the rows are
  unchanged and there is no call of \<^verbatim>\<open>redirectToJob\<close>.
\<close>

theorem redirect_gated_by_checks:
  "\<exists>new. w_events (snd (redirect env c w)) = w_events w @ new \<and>
     ((\<exists>e \<in> set new. is_RedirectToJob e) \<longrightarrow>
        (\<exists>job groups.
           filter r_checked (w_model w) \<noteq> [] \<and> getJob c \<noteq> [] \<and>
           findJob env (getJob c) = Inr job \<and>
           get_selected_procs_by_alloc (w_hosts w) (filter r_checked (w_model w)) []
             = Inr groups \<and>
           (\<forall>k < length groups. \<exists>evs1.
              is_cross_show_safe env (snd (groups ! k)) (j_show job)
                  (snd (check_allocs env (take k groups) (j_show job) (w_events w)))
                = (Inr True, evs1) \<and>
              is_burst_safe env (fst (groups ! k)) (snd (groups ! k)) (j_show job) evs1
                = (Inr True, snd (check_allocs env (take (Suc k) groups) (j_show job)
                                    (w_events w)))))) \<and>
     (\<forall>job groups k evs_k evs'.
        filter r_checked (w_model w) \<noteq> [] \<and> getJob c \<noteq> [] \<and>
        findJob env (getJob c) = Inr job \<and>
        get_selected_procs_by_alloc (w_hosts w) (filter r_checked (w_model w)) []
          = Inr groups \<and>
        k < length groups \<and>
        check_allocs env (take k groups) (j_show job) (w_events w) = (Inr True, evs_k) \<and>
        (is_cross_show_safe env (snd (groups ! k)) (j_show job) evs_k = (Inr False, evs') \<or>
         (\<exists>evs1.
            is_cross_show_safe env (snd (groups ! k)) (j_show job) evs_k = (Inr True, evs1) \<and>
            is_burst_safe env (fst (groups ! k)) (snd (groups ! k)) (j_show job) evs1
              = (Inr False, evs')))
        \<longrightarrow> redirect env c w = (None, w\<lparr>w_events := evs'\<rparr>) \<and>
            (\<forall>e \<in> set new. \<not> is_RedirectToJob e))"
proof -
  let ?sel = "filter r_checked (w_model w)"
  let ?P = "\<lambda>job groups. ?sel \<noteq> [] \<and> getJob c \<noteq> [] \<and>
           findJob env (getJob c) = Inr job \<and>
           get_selected_procs_by_alloc (w_hosts w) ?sel [] = Inr groups"
  let ?all = "\<lambda>job groups. \<forall>k < length groups. \<exists>evs1.
              is_cross_show_safe env (snd (groups ! k)) (j_show job)
                  (snd (check_allocs env (take k groups) (j_show job) (w_events w)))
                = (Inr True, evs1) \<and>
              is_burst_safe env (fst (groups ! k)) (snd (groups ! k)) (j_show job) evs1
                = (Inr True, snd (check_allocs env (take (Suc k) groups) (j_show job)
                                    (w_events w)))"
  let ?bad = "\<lambda>job groups k evs_k evs'. k < length groups \<and>
        check_allocs env (take k groups) (j_show job) (w_events w) = (Inr True, evs_k) \<and>
        (is_cross_show_safe env (snd (groups ! k)) (j_show job) evs_k = (Inr False, evs') \<or>
         (\<exists>evs1.
            is_cross_show_safe env (snd (groups ! k)) (j_show job) evs_k = (Inr True, evs1) \<and>
            is_burst_safe env (fst (groups ! k)) (snd (groups ! k)) (j_show job) evs1
              = (Inr False, evs')))"
  let ?E = "\<lambda>new. w_events (snd (redirect env c w)) = w_events w @ new"
  let ?G = "\<lambda>new. (\<exists>e \<in> set new. is_RedirectToJob e) \<longrightarrow>
              (\<exists>job groups. ?P job groups \<and> ?all job groups)"
  let ?F = "\<lambda>new. \<forall>job groups k evs_k evs'. ?P job groups \<and> ?bad job groups k evs_k evs'
              \<longrightarrow> redirect env c w = (None, w\<lparr>w_events := evs'\<rparr>) \<and>
                  (\<forall>e \<in> set new. \<not> is_RedirectToJob e)"
  have failing: "check_allocs env groups (j_show job) (w_events w) = (Inr False, evs')"
    if k: "k < length groups"
      and before: "check_allocs env (take k groups) (j_show job) (w_events w) = (Inr True, evs_k)"
      and bad: "is_cross_show_safe env (snd (groups ! k)) (j_show job) evs_k = (Inr False, evs') \<or>
         (\<exists>evs1.
            is_cross_show_safe env (snd (groups ! k)) (j_show job) evs_k = (Inr True, evs1) \<and>
            is_burst_safe env (fst (groups ! k)) (snd (groups ! k)) (j_show job) evs1
              = (Inr False, evs'))"
    for job :: job and groups k evs_k evs'
    using bad
  proof
    assume x: "is_cross_show_safe env (snd (groups ! k)) (j_show job) evs_k = (Inr False, evs')"
    show ?thesis
      by (rule check_allocs_fails_at [OF k before x]) simp
  next
    assume "\<exists>evs1.
          is_cross_show_safe env (snd (groups ! k)) (j_show job) evs_k = (Inr True, evs1) \<and>
          is_burst_safe env (fst (groups ! k)) (snd (groups ! k)) (j_show job) evs1
            = (Inr False, evs')"
    then obtain evs1 where
      x: "is_cross_show_safe env (snd (groups ! k)) (j_show job) evs_k = (Inr True, evs1)" and
      b: "is_burst_safe env (fst (groups ! k)) (snd (groups ! k)) (j_show job) evs1
            = (Inr False, evs')"
      by blast
    show ?thesis
      by (rule check_allocs_fails_at [OF k before x]) (simp add: b)
  qed
  have no_groups: "?G n \<and> ?F n"
    if "\<forall>e \<in> set n. \<not> is_RedirectToJob e" "\<And>job groups. \<not> ?P job groups" for n
    using that by blast
  have "\<exists>new. ?E new \<and> ?G new \<and> ?F new"
  proof (cases "?sel = []")
    case True
    then have "?E [Warn Nothing_selected]"
      by (simp add: redirect_def warn_def)
    moreover have "?G [Warn Nothing_selected] \<and> ?F [Warn Nothing_selected]"
      by (rule no_groups) (simp_all add: True)
    ultimately show ?thesis by blast
  next
    case sel: False
    show ?thesis
    proof (cases "getJob c = []")
      case True
      with sel have "?E [Warn No_job_name]"
        by (simp add: redirect_def warn_def)
      moreover have "?G [Warn No_job_name] \<and> ?F [Warn No_job_name]"
        by (rule no_groups) (simp_all add: True)
      ultimately show ?thesis by blast
    next
      case nm: False
      show ?thesis
      proof (cases "findJob env (getJob c)")
        case (Inl e)
        with sel nm have "?E []"
          by (simp add: redirect_def)
        moreover have "?G [] \<and> ?F []"
          by (rule no_groups) (simp_all add: Inl)
        ultimately show ?thesis by blast
      next
        case (Inr job)
        show ?thesis
        proof (cases "get_selected_procs_by_alloc (w_hosts w) ?sel []")
          case (Inl e)
          with sel nm Inr have "?E []"
            by (simp add: redirect_def)
          moreover have "?G [] \<and> ?F []"
            by (rule no_groups) (simp_all add: Inl)
          ultimately show ?thesis by blast
        next
          case gr: (Inr groups)
          have uniq: "job' = job \<and> groups' = groups" if "?P job' groups'" for job' groups'
            using that Inr gr by simp
          obtain r evs where
            ca: "check_allocs env groups (j_show job) (w_events w) = (r, evs)"
            by (cases "check_allocs env groups (j_show job) (w_events w)")
          from check_allocs_appends [OF ca] obtain n where
            n: "evs = w_events w @ n" "\<forall>e \<in> set n. \<not> is_RedirectToJob e" by blast
          show ?thesis
          proof (cases "r = Inr True")
            case False
            with sel nm Inr gr ca have run: "redirect env c w =
                (case r of Inl e \<Rightarrow> Some e | Inr b \<Rightarrow> None, w\<lparr>w_events := evs\<rparr>)"
              by (cases r) (auto simp: redirect_def Let_def split: bool.splits)
            then have "?E n" using n(1) by simp
            moreover have "?G n" using n(2) by blast
            moreover have "?F n"
            proof (intro allI impI)
              fix job' groups' k evs_k evs'
              assume a: "?P job' groups' \<and> ?bad job' groups' k evs_k evs'"
              with uniq have eq: "job' = job" "groups' = groups" by blast+
              from a have "?bad job groups k evs_k evs'" unfolding eq by blast
              then have "check_allocs env groups (j_show job) (w_events w) = (Inr False, evs')"
                using failing [of k groups job evs_k evs'] by blast
              with ca have "r = Inr False" "evs = evs'" by simp_all
              with run n(2)
              show "redirect env c w = (None, w\<lparr>w_events := evs'\<rparr>) \<and>
                    (\<forall>e \<in> set n. \<not> is_RedirectToJob e)"
                by simp
            qed
            ultimately show ?thesis by blast
          next
            case True
            with ca have ca': "check_allocs env groups (j_show job) (w_events w) = (Inr True, evs)"
              by simp
            from redirect_after_checks [OF sel nm Inr gr ca'] obtain cs where
              run: "redirect env c w =
               (None, w\<lparr>w_model := map mark_redirected (w_model w),
                        w_events := evs @ cs @
                          (if \<exists>e \<in> set cs. raised e then [Warn Some_procs_failed] else [])\<rparr>)"
              by blast
            let ?new = "n @ cs @
                (if \<exists>e \<in> set cs. raised e then [Warn Some_procs_failed] else [])"
            have "?E ?new" using run n(1) by simp
            moreover have all: "?all job groups"
              using check_allocs_True_prefix [OF ca'] by blast
            then have "?G ?new" using sel nm Inr gr by blast
            moreover have "?F ?new"
            proof (intro allI impI)
              fix job' groups' k evs_k evs'
              assume a: "?P job' groups' \<and> ?bad job' groups' k evs_k evs'"
              with uniq have eq: "job' = job" "groups' = groups" by blast+
              from a have "?bad job groups k evs_k evs'" unfolding eq by blast
              then have "check_allocs env groups (j_show job) (w_events w) = (Inr False, evs')"
                using failing [of k groups job evs_k evs'] by blast
              with ca' have False by simp
              then show "redirect env c w = (None, w\<lparr>w_events := evs'\<rparr>) \<and>
                    (\<forall>e \<in> set ?new. \<not> is_RedirectToJob e)" ..
            qed
            ultimately show ?thesis by blast
          qed
        qed
      qed
    qed
  qed
  then show ?thesis by simp
qed

lemma ex_selected:
  "filter r_checked (w_model ex_widget) = [(row_of ex_entry)\<lparr>r_checked := True\<rparr>]"
  by (simp add: ex_widget_def)

lemma ex_groups:
  "get_selected_procs_by_alloc (w_hosts ex_widget) (filter r_checked (w_model ex_widget)) []
     = Inr [(''lax.spinux'', [ex_proc])]"
  by (simp add: ex_widget_def row_of_def ex_entry_def add_proc_def new_entry_def ex_host_def)

lemma ex_redirect:
  "redirect ex_env ex_controls ex_widget =
     (None, ex_widget\<lparr>w_model := map mark_redirected (w_model ex_widget),
                      w_events := [RedirectToJob ex_host [ex_proc] ex_job None]\<rparr>)"
  by (simp add: redirect_def ex_selected ex_groups getJob_def ex_controls_def Let_def
      ex_env_def is_cross_show_safe_def ex_other_job_def ex_job_def is_burst_safe_def
      ex_show_def show_subs_def dict_of_pairs_def rstrip_def ex_proc_def py_int_def
      ex_widget_def row_of_def ex_entry_def add_proc_def new_entry_def ex_host_def
      mark_redirected_def)

lemma ex_redirect_cross:
  "redirect ex_env_cross ex_controls ex_widget =
     (None, ex_widget\<lparr>w_events :=
        [QuestionBoxYesNo (Cross_show_question [''edu'']) [''pipe-other''] False]\<rparr>)"
proof -
  have sel: "filter r_checked (w_model ex_widget) \<noteq> []" by (simp add: ex_selected)
  have "redirect ex_env_cross ex_controls ex_widget =
     (None, ex_widget\<lparr>w_events :=
        w_events ex_widget @
        [QuestionBoxYesNo (Cross_show_question [''edu'']) [''pipe-other''] False]\<rparr>)"
    using sel
    by (simp add: redirect_def ex_groups getJob_def ex_controls_def Let_def
      ex_env_def ex_env_cross_def is_cross_show_safe_def ex_other_job_def ex_job_def ask_def)
  then show ?thesis by (simp add: ex_widget_def)
qed

theorem redirect_gated_by_checks_witness:
  "(\<exists>e \<in> set (w_events (snd (redirect ex_env ex_controls ex_widget))). is_RedirectToJob e) \<and>
   (\<exists>job groups.
      findJob ex_env (getJob ex_controls) = Inr job \<and>
      get_selected_procs_by_alloc (w_hosts ex_widget) (filter r_checked (w_model ex_widget)) []
        = Inr groups \<and> groups \<noteq> [] \<and>
      (\<forall>k < length groups. \<exists>evs1.
         is_cross_show_safe ex_env (snd (groups ! k)) (j_show job)
             (snd (check_allocs ex_env (take k groups) (j_show job) (w_events ex_widget)))
           = (Inr True, evs1) \<and>
         is_burst_safe ex_env (fst (groups ! k)) (snd (groups ! k)) (j_show job) evs1
           = (Inr True, snd (check_allocs ex_env (take (Suc k) groups) (j_show job)
                               (w_events ex_widget))))) \<and>
   is_cross_show_safe ex_env_cross [ex_proc] ''pipe'' [] =
     (Inr False, [QuestionBoxYesNo (Cross_show_question [''edu'']) [''pipe-other''] False]) \<and>
   redirect ex_env_cross ex_controls ex_widget =
     (None, ex_widget\<lparr>w_events :=
        [QuestionBoxYesNo (Cross_show_question [''edu'']) [''pipe-other''] False]\<rparr>)"
proof -
  have ev: "w_events ex_widget = []" by (simp add: ex_widget_def)
  have job: "findJob ex_env (getJob ex_controls) = Inr ex_job"
    by (simp add: ex_env_def getJob_def ex_controls_def)
  have jobx: "findJob ex_env_cross (getJob ex_controls) = Inr ex_job"
    by (simp add: ex_env_def ex_env_cross_def getJob_def ex_controls_def)
  have nm: "getJob ex_controls \<noteq> []" by (simp add: getJob_def ex_controls_def)
  have sel: "filter r_checked (w_model ex_widget) \<noteq> []" by (simp add: ex_selected)
  have sh: "j_show ex_job = ''pipe''" by (simp add: ex_job_def)
  have cross: "is_cross_show_safe ex_env_cross [ex_proc] ''pipe'' [] =
     (Inr False, [QuestionBoxYesNo (Cross_show_question [''edu'']) [''pipe-other''] False])"
    by (simp add: ex_env_def ex_env_cross_def is_cross_show_safe_def ex_other_job_def ask_def)
  from redirect_gated_by_checks [of ex_env ex_controls ex_widget] obtain new where
    e: "w_events (snd (redirect ex_env ex_controls ex_widget)) = w_events ex_widget @ new" and
    g: "(\<exists>e \<in> set new. is_RedirectToJob e) \<longrightarrow>
        (\<exists>job groups.
           filter r_checked (w_model ex_widget) \<noteq> [] \<and> getJob ex_controls \<noteq> [] \<and>
           findJob ex_env (getJob ex_controls) = Inr job \<and>
           get_selected_procs_by_alloc (w_hosts ex_widget)
             (filter r_checked (w_model ex_widget)) [] = Inr groups \<and>
           (\<forall>k < length groups. \<exists>evs1.
              is_cross_show_safe ex_env (snd (groups ! k)) (j_show job)
                  (snd (check_allocs ex_env (take k groups) (j_show job) (w_events ex_widget)))
                = (Inr True, evs1) \<and>
              is_burst_safe ex_env (fst (groups ! k)) (snd (groups ! k)) (j_show job) evs1
                = (Inr True, snd (check_allocs ex_env (take (Suc k) groups) (j_show job)
                                    (w_events ex_widget)))))"
    by blast
  from e have "new = [RedirectToJob ex_host [ex_proc] ex_job None]"
    by (simp add: ex_redirect ev)
  then have has: "\<exists>e \<in> set new. is_RedirectToJob e" by simp
  have first: "\<exists>e \<in> set (w_events (snd (redirect ex_env ex_controls ex_widget))). is_RedirectToJob e"
    by (simp add: ex_redirect)
  from g has obtain job groups where
    jg: "findJob ex_env (getJob ex_controls) = Inr job"
        "get_selected_procs_by_alloc (w_hosts ex_widget)
             (filter r_checked (w_model ex_widget)) [] = Inr groups"
        "\<forall>k < length groups. \<exists>evs1.
              is_cross_show_safe ex_env (snd (groups ! k)) (j_show job)
                  (snd (check_allocs ex_env (take k groups) (j_show job) (w_events ex_widget)))
                = (Inr True, evs1) \<and>
              is_burst_safe ex_env (fst (groups ! k)) (snd (groups ! k)) (j_show job) evs1
                = (Inr True, snd (check_allocs ex_env (take (Suc k) groups) (j_show job)
                                    (w_events ex_widget)))"
    by blast
  from jg(2) have ne: "groups \<noteq> []" by (auto simp: ex_groups)
  from redirect_gated_by_checks [of ex_env_cross ex_controls ex_widget] obtain new' where
    f: "\<forall>job groups k evs_k evs'.
        filter r_checked (w_model ex_widget) \<noteq> [] \<and> getJob ex_controls \<noteq> [] \<and>
        findJob ex_env_cross (getJob ex_controls) = Inr job \<and>
        get_selected_procs_by_alloc (w_hosts ex_widget)
          (filter r_checked (w_model ex_widget)) [] = Inr groups \<and>
        k < length groups \<and>
        check_allocs ex_env_cross (take k groups) (j_show job) (w_events ex_widget)
          = (Inr True, evs_k) \<and>
        (is_cross_show_safe ex_env_cross (snd (groups ! k)) (j_show job) evs_k
           = (Inr False, evs') \<or>
         (\<exists>evs1.
            is_cross_show_safe ex_env_cross (snd (groups ! k)) (j_show job) evs_k
              = (Inr True, evs1) \<and>
            is_burst_safe ex_env_cross (fst (groups ! k)) (snd (groups ! k)) (j_show job) evs1
              = (Inr False, evs')))
        \<longrightarrow> redirect ex_env_cross ex_controls ex_widget = (None, ex_widget\<lparr>w_events := evs'\<rparr>) \<and>
            (\<forall>e \<in> set new'. \<not> is_RedirectToJob e)"
    by blast
  have "redirect ex_env_cross ex_controls ex_widget =
     (None, ex_widget\<lparr>w_events :=
        [QuestionBoxYesNo (Cross_show_question [''edu'']) [''pipe-other''] False]\<rparr>)"
    using f [rule_format, of ex_job "[(''lax.spinux'', [ex_proc])]" 0 "[]"
        "[QuestionBoxYesNo (Cross_show_question [''edu'']) [''pipe-other''] False]"]
      sel nm jobx ex_groups cross
    by (simp add: sh ev)
  with first jg ne cross show ?thesis by blast
qed

text \<open>
  C5. When rows are selected, the job box names a job the service finds and the checks of
  all allocation groups pass, \<^verbatim>\<open>redirect\<close> returns normally after calling
  \<^verbatim>\<open>redirectToJob\<close> once for every checked row, in the order of the rows, with the host
  and the procs of the row's entry and the found job, whether or not an earlier call
  raised; every checked row has the retry icon and is disabled afterwards and every other
  row is unchanged; and after the calls the warning that some procs failed is shown once
  when a call raised and not at all when none did.
\<close>

theorem redirect_calls_every_checked_row:
  assumes "filter r_checked (w_model w) \<noteq> []"
    and "getJob c \<noteq> []"
    and "findJob env (getJob c) = Inr job"
    and "get_selected_procs_by_alloc (w_hosts w) (filter r_checked (w_model w)) []
           = Inr groups"
    and "check_allocs env groups (j_show job) (w_events w) = (Inr True, evs)"
  shows "\<exists>cs.
     redirect env c w =
       (None, w\<lparr>w_model := map mark_redirected (w_model w),
                w_events := evs @ cs @
                  (if \<exists>e \<in> set cs. raised e then [Warn Some_procs_failed] else [])\<rparr>) \<and>
     length cs = length (filter r_checked (w_model w)) \<and>
     (\<forall>i < length cs. \<exists>entry.
        w_hosts w (r_text (filter r_checked (w_model w) ! i)) = Some entry \<and>
        cs ! i = RedirectToJob (e_host entry) (e_procs entry) job
                   (redirectToJob env (evs @ take i cs) (e_host entry) (e_procs entry) job))"
  using assms by (rule redirect_after_checks)

theorem redirect_calls_every_checked_row_witness:
  "filter r_checked (w_model ex_widget) \<noteq> [] \<and>
   getJob ex_controls \<noteq> [] \<and>
   findJob ex_env_fail (getJob ex_controls) = Inr ex_job \<and>
   get_selected_procs_by_alloc (w_hosts ex_widget) (filter r_checked (w_model ex_widget)) []
     = Inr [(''lax.spinux'', [ex_proc])] \<and>
   check_allocs ex_env_fail [(''lax.spinux'', [ex_proc])] (j_show ex_job) (w_events ex_widget)
     = (Inr True, []) \<and>
   (\<exists>cs.
     redirect ex_env_fail ex_controls ex_widget =
       (None, ex_widget\<lparr>w_model := map mark_redirected (w_model ex_widget),
                w_events := [] @ cs @
                  (if \<exists>e \<in> set cs. raised e then [Warn Some_procs_failed] else [])\<rparr>) \<and>
     length cs = length (filter r_checked (w_model ex_widget)) \<and>
     (\<forall>i < length cs. \<exists>entry.
        w_hosts ex_widget (r_text (filter r_checked (w_model ex_widget) ! i)) = Some entry \<and>
        cs ! i = RedirectToJob (e_host entry) (e_procs entry) ex_job
                   (redirectToJob ex_env_fail ([] @ take i cs)
                      (e_host entry) (e_procs entry) ex_job))) \<and>
   redirect ex_env_fail ex_controls ex_widget =
     (None, ex_widget\<lparr>w_model := map mark_redirected (w_model ex_widget),
                      w_events := [RedirectToJob ex_host [ex_proc] ex_job (Some ''failed''),
                                   Warn Some_procs_failed]\<rparr>)"
proof -
  have sel: "filter r_checked (w_model ex_widget) \<noteq> []" by (simp add: ex_selected)
  have nm: "getJob ex_controls \<noteq> []" by (simp add: getJob_def ex_controls_def)
  have job: "findJob ex_env_fail (getJob ex_controls) = Inr ex_job"
    by (simp add: ex_env_def ex_env_fail_def getJob_def ex_controls_def)
  have checks: "check_allocs ex_env_fail [(''lax.spinux'', [ex_proc])] (j_show ex_job)
                  (w_events ex_widget) = (Inr True, [])"
    by (simp add: ex_env_def ex_env_fail_def is_cross_show_safe_def ex_other_job_def
        ex_job_def is_burst_safe_def ex_show_def show_subs_def dict_of_pairs_def rstrip_def
        ex_proc_def py_int_def ex_widget_def)
  have run: "redirect ex_env_fail ex_controls ex_widget =
     (None, ex_widget\<lparr>w_model := map mark_redirected (w_model ex_widget),
                      w_events := [RedirectToJob ex_host [ex_proc] ex_job (Some ''failed''),
                                   Warn Some_procs_failed]\<rparr>)"
    using sel
    by (simp add: redirect_def ex_groups getJob_def ex_controls_def Let_def
      ex_env_def ex_env_fail_def is_cross_show_safe_def ex_other_job_def ex_job_def
      is_burst_safe_def ex_show_def show_subs_def dict_of_pairs_def rstrip_def ex_proc_def
      py_int_def ex_widget_def row_of_def ex_entry_def add_proc_def new_entry_def ex_host_def
      mark_redirected_def warn_def)
  from sel nm job ex_groups checks run
    redirect_calls_every_checked_row [OF sel nm job ex_groups checks]
  show ?thesis by blast
qed


lemma redirect_no_job_name:
  "filter r_checked (w_model w) \<noteq> [] \<Longrightarrow> getJob c = [] \<Longrightarrow>
   redirect env c w = (None, w\<lparr>w_events := w_events w @ [Warn No_job_name]\<rparr>)"
  by (simp add: redirect_def warn_def)

text \<open>
  C4, at a target job that is no longer in the cue: one row is checked, the job box holds
  \<open>gone\<close> and \<^verbatim>\<open>findJob\<close> raises EntityNotFoundException. No warning is shown, the widget
  is left as it was and AttributeError leaves \<^verbatim>\<open>redirect\<close>; \<^verbatim>\<open>redirectToJob\<close> is not called.
\<close>

theorem redirect_job_gone_raises:
  "findJob ex_env (getJob (ex_controls\<lparr>job_box := ''gone''\<rparr>)) = Inl EntityNotFoundException \<and>
   filter r_checked (w_model ex_widget) \<noteq> [] \<and>
   redirect ex_env (ex_controls\<lparr>job_box := ''gone''\<rparr>) ex_widget =
     (Some AttributeError, ex_widget)"
  by (simp add: redirect_def ex_env_def ex_controls_def ex_widget_def getJob_def row_of_def)

subsection \<open>update\<close>

lemma gather_procs_all:
  assumes "procs_all Q st" and "Q p"
  shows "procs_all Q (flow_state (gather env c now p st))"
proof -
  let ?name = "split_first (p_name p)"
  have new: "\<forall>q \<in> set (e_procs (new_entry h)). Q q" for h
    by (simp add: new_entry_def)
  have add: "\<forall>q \<in> set (e_procs (add_proc now p e)). Q q"
    if "\<forall>q \<in> set (e_procs e). Q q" for e
    using that assms(2) by (simp add: add_proc_def)
  show ?thesis
  proof (cases "u_hosts st ?name")
    case None
    show ?thesis
    proof (cases "findHost env ?name")
      case (Inl x)
      with None assms(1) show ?thesis by (simp add: gather_def)
    next
      case (Inr h)
      with None assms(1) add [OF new [of h]] show ?thesis
        by (auto simp: gather_def Let_def procs_all_def addHost_def row_of_def new_entry_def)
    qed
  next
    case (Some e)
    with assms(1) have "\<forall>q \<in> set (e_procs e). Q q" by (auto simp: procs_all_def)
    from add [OF this] Some assms(1) show ?thesis
      by (auto simp: gather_def Let_def procs_all_def addHost_def row_of_def)
  qed
qed

lemma update_proc_procs_all:
  assumes "procs_all Q st" and "passes_filters env c (u_ok st) p = Inr True \<longrightarrow> Q p"
  shows "procs_all Q (flow_state (update_proc env c i p st))"
proof (cases "passes_filters env c (u_ok st) p")
  case (Inl a)
  with assms(1) show ?thesis by (cases a) (simp_all add: update_proc_def)
next
  case (Inr b)
  show ?thesis
  proof (cases b)
    case True
    with Inr assms(2) have "Q p" by simp
    from gather_procs_all [OF assms(1) this] Inr True show ?thesis
      by (simp add: update_proc_def)
  next
    case False
    with Inr assms(1) show ?thesis by (simp add: update_proc_def)
  qed
qed

lemma update_loop_procs_all:
  assumes "procs_all Q st"
    and "\<forall>p \<in> set ps. \<forall>ok. passes_filters env c ok p = Inr True \<longrightarrow> Q p"
  shows "procs_all Q (snd (update_loop env c i ps st))"
  using assms
proof (induction ps arbitrary: i st)
  case Nil
  then show ?case by simp
next
  case (Cons p ps)
  have step: "procs_all Q (flow_state (update_proc env c i p st))"
    using Cons.prems by (intro update_proc_procs_all) auto
  show ?case
  proof (cases "wasCanceled env i")
    case True
    with Cons.prems(1) show ?thesis by simp
  next
    case False
    show ?thesis
    proof (cases "update_proc env c i p st")
      case (Next st1)
      with step have "procs_all Q st1" by simp
      then have "procs_all Q (snd (update_loop env c (Suc i) ps st1))"
        using Cons.prems(2) by (intro Cons.IH) auto
      with False Next show ?thesis by simp
    next
      case (Break st1)
      with step False show ?thesis by simp
    next
      case (Raise e st1)
      with step False show ?thesis by simp
    qed
  qed
qed

lemma procs_all_init: "procs_all Q init_ustate"
  by (simp add: procs_all_def init_ustate_def)

lemma passes_filters_True:
  "passes_filters env c ok p = Inr True \<Longrightarrow>
   p_show_name p = sh_name (getShow c) \<and>
   p_job_name p \<noteq> getJob c \<and>
   p_redirect_target p = [] \<and>
   ok < getLimit c \<and>
   (getJobNameExcludeRegex c \<noteq> [] \<longrightarrow>
      re_match env (getJobNameExcludeRegex c) (p_job_name p) = Inr False) \<and>
   (getRequiredService c \<noteq> [] \<longrightarrow> getRequiredService c \<in> set (p_services p)) \<and>
   (getIncludedGroups c \<noteq> [] \<longrightarrow> p_group_name p \<in> set (getIncludedGroups c))"
  by (auto simp: passes_filters_def Let_def split: if_splits sum.splits bool.splits)

lemma gathered_entry_snoc:
  "gathered_entry h (tps @ [(t, p)]) = add_proc t p (gathered_entry h tps)"
  by (simp add: gathered_entry_def)

lemma gathered_entry_fields:
  "e_host (gathered_entry h tps) = h"
  "e_ok (gathered_entry h tps) = False"
  "e_alloc (gathered_entry h tps) = h_alloc_name h"
  "e_procs (gathered_entry h tps) = map snd tps"
  by (induction tps rule: rev_induct)
     (simp_all add: gathered_entry_def new_entry_def add_proc_def)


lemma entry_inv_mono:
  assumes "entry_inv c dn e"
  shows "entry_inv c (dn @ dn2) e"
proof -
  from assms obtain tps where tps: "subseq tps dn" "tps \<noteq> []"
    "e = (gathered_entry (e_host e) tps)
           \<lparr>e_ok := thresholds_met c (gathered_entry (e_host e) tps)\<rparr>"
    "\<forall>k. 0 < k \<and> k < length tps \<longrightarrow>
       \<not> thresholds_met c (gathered_entry (e_host e) (take k tps))"
    unfolding entry_inv_def by blast
  from tps(1) have "subseq tps (dn @ dn2)" by (rule subseq_rev_drop_many)
  with tps(2,3,4) show ?thesis unfolding entry_inv_def by blast
qed

lemma entry_not_ok_update:
  "\<not> e_ok g \<Longrightarrow> g\<lparr>e_ok := False\<rparr> = g"
  by (cases g) simp

lemma loop_inv_mono:
  "loop_inv c dn st \<Longrightarrow> loop_inv c (dn @ dn2) st"
  unfolding loop_inv_def using entry_inv_mono by blast

lemma entry_inv_not_ok:
  assumes "entry_inv c dn e" and "\<not> e_ok e"
  shows "entry_inv c (dn @ [(t, p)])
           ((add_proc t p e)\<lparr>e_ok := thresholds_met c (add_proc t p e)\<rparr>)"
proof -
  let ?h = "e_host e"
  from assms(1) obtain tps where tps: "subseq tps dn" "tps \<noteq> []"
    "e = (gathered_entry ?h tps)\<lparr>e_ok := thresholds_met c (gathered_entry ?h tps)\<rparr>"
    "\<forall>k. 0 < k \<and> k < length tps \<longrightarrow> \<not> thresholds_met c (gathered_entry ?h (take k tps))"
    unfolding entry_inv_def by blast
  have "e_ok e = e_ok ((gathered_entry ?h tps)
                         \<lparr>e_ok := thresholds_met c (gathered_entry ?h tps)\<rparr>)"
    using tps(3) by (rule arg_cong)
  then have "e_ok e = thresholds_met c (gathered_entry ?h tps)" by simp
  with assms(2) have nm: "\<not> thresholds_met c (gathered_entry ?h tps)" by simp
  have "(gathered_entry ?h tps)\<lparr>e_ok := False\<rparr> = gathered_entry ?h tps"
    by (rule entry_not_ok_update) (simp add: gathered_entry_fields)
  with tps(3) nm have e: "e = gathered_entry ?h tps" by simp
  let ?tps = "tps @ [(t, p)]"
  let ?e' = "(add_proc t p e)\<lparr>e_ok := thresholds_met c (add_proc t p e)\<rparr>"
  have h': "e_host ?e' = ?h" by (simp add: add_proc_def)
  have "gathered_entry ?h ?tps = add_proc t p (gathered_entry ?h tps)"
    by (rule gathered_entry_snoc)
  with e have g: "gathered_entry ?h ?tps = add_proc t p e" by simp
  have 1: "subseq ?tps (dn @ [(t, p)])"
    using tps(1) by (simp add: list_emb_append_mono)
  have 2: "?tps \<noteq> []" by simp
  have 3: "?e' = (gathered_entry (e_host ?e') ?tps)
              \<lparr>e_ok := thresholds_met c (gathered_entry (e_host ?e') ?tps)\<rparr>"
    unfolding h' g ..
  have 4: "\<not> thresholds_met c (gathered_entry (e_host ?e') (take k ?tps))"
    if k: "0 < k \<and> k < length ?tps" for k
  proof (cases "k < length tps")
    case True
    with k tps(4) show ?thesis unfolding h' by simp
  next
    case False
    with k have "k = length tps" by simp
    with nm show ?thesis unfolding h' by simp
  qed
  from 1 2 3 4 show ?thesis unfolding entry_inv_def by blast
qed

lemma entry_inv_new:
  "entry_inv c (dn @ [(t, p)])
     ((add_proc t p (new_entry h))\<lparr>e_ok := thresholds_met c (add_proc t p (new_entry h))\<rparr>)"
proof -
  let ?e' = "(add_proc t p (new_entry h))\<lparr>e_ok := thresholds_met c (add_proc t p (new_entry h))\<rparr>"
  have h': "e_host ?e' = h" by (simp add: add_proc_def new_entry_def)
  have g: "gathered_entry h [(t, p)] = add_proc t p (new_entry h)"
    by (simp add: gathered_entry_def)
  have 1: "subseq [(t, p)] (dn @ [(t, p)])" by (simp add: list_emb_append2)
  have 3: "?e' = (gathered_entry (e_host ?e') [(t, p)])
              \<lparr>e_ok := thresholds_met c (gathered_entry (e_host ?e') [(t, p)])\<rparr>"
    unfolding h' g ..
  show ?thesis unfolding entry_inv_def
  proof (intro exI [of _ "[(t, p)]"] conjI)
    show "subseq [(t, p)] (dn @ [(t, p)])" by (rule 1)
    show "[(t, p)] \<noteq> []" by simp
    show "?e' = (gathered_entry (e_host ?e') [(t, p)])
              \<lparr>e_ok := thresholds_met c (gathered_entry (e_host ?e') [(t, p)])\<rparr>"
      by (rule 3)
    show "\<forall>k. 0 < k \<and> k < length [(t, p)] \<longrightarrow>
            \<not> thresholds_met c (gathered_entry (e_host ?e') (take k [(t, p)]))"
      by simp
  qed
qed

lemma install_loop_inv:
  assumes inv: "loop_inv c dn st"
    and lim: "u_ok st < getLimit c"
    and notok: "\<forall>e. u_hosts st name = Some e \<longrightarrow> \<not> e_ok e"
    and h1: "\<not> e_ok host1"
    and ent: "entry_inv c (dn @ [x]) (host1\<lparr>e_ok := thresholds_met c host1\<rparr>)"
  shows "loop_inv c (dn @ [x])
           (if thresholds_met c host1
            then st\<lparr>u_hosts := (u_hosts st)(name \<mapsto> host1\<lparr>e_ok := True\<rparr>),
                    u_rows := addHost host1 (u_rows st),
                    u_ok := u_ok st + 1\<rparr>
            else st\<lparr>u_hosts := (u_hosts st)(name \<mapsto> host1)\<rparr>)"
proof -
  from inv have ents: "\<forall>n e. u_hosts st n = Some e \<longrightarrow> entry_inv c dn e"
    and rows: "rows_inv st"
    and ok: "u_ok st = int (length (u_rows st))" "u_ok st \<le> max 0 (getLimit c)"
    unfolding loop_inv_def by auto
  from rows obtain ks where ks: "distinct ks"
    "set ks = {n. \<exists>e. u_hosts st n = Some e \<and> e_ok e}"
    "u_rows st = map (\<lambda>k. row_of (the (u_hosts st k))) ks"
    unfolding rows_inv_def by blast
  from ks(2) notok have nin: "name \<notin> set ks" by auto
  have same: "map (\<lambda>k. row_of (the (((u_hosts st)(name \<mapsto> E)) k))) ks
                = map (\<lambda>k. row_of (the (u_hosts st k))) ks" for E
    using nin by (intro map_cong) auto
  show ?thesis
  proof (cases "thresholds_met c host1")
    case True
    let ?E = "host1\<lparr>e_ok := True\<rparr>"
    let ?st = "st\<lparr>u_hosts := (u_hosts st)(name \<mapsto> ?E),
                   u_rows := addHost host1 (u_rows st), u_ok := u_ok st + 1\<rparr>"
    from ent True have entE: "entry_inv c (dn @ [x]) ?E" by simp
    have 1: "\<forall>n e. u_hosts ?st n = Some e \<longrightarrow> entry_inv c (dn @ [x]) e"
      using ents entE entry_inv_mono by auto
    have d: "distinct (ks @ [name])" using ks(1) nin by simp
    have s: "set (ks @ [name]) = {n. \<exists>e. u_hosts ?st n = Some e \<and> e_ok e}"
      using ks(2) by auto
    have r: "u_rows ?st = map (\<lambda>k. row_of (the (u_hosts ?st k))) (ks @ [name])"
      using same [of ?E] ks(3) by (simp add: addHost_def row_of_def)
    from d s r have 2: "rows_inv ?st" unfolding rows_inv_def by blast
    have 3: "u_ok ?st = int (length (u_rows ?st))" using ok(1) by (simp add: addHost_def)
    have 4: "u_ok ?st \<le> max 0 (getLimit c)" using lim by simp
    from 1 2 3 4 True show ?thesis unfolding loop_inv_def by simp
  next
    case False
    let ?st = "st\<lparr>u_hosts := (u_hosts st)(name \<mapsto> host1)\<rparr>"
    have "host1\<lparr>e_ok := False\<rparr> = host1" using h1 by (rule entry_not_ok_update)
    with ent False have entE: "entry_inv c (dn @ [x]) host1" by simp
    have 1: "\<forall>n e. u_hosts ?st n = Some e \<longrightarrow> entry_inv c (dn @ [x]) e"
      using ents entE entry_inv_mono by auto
    have s: "set ks = {n. \<exists>e. u_hosts ?st n = Some e \<and> e_ok e}"
      using ks(2) h1 notok by auto
    have r: "u_rows ?st = map (\<lambda>k. row_of (the (u_hosts ?st k))) ks"
      using same [of host1] ks(3) by simp
    from ks(1) s r have 2: "rows_inv ?st" unfolding rows_inv_def by blast
    from 1 2 ok False show ?thesis unfolding loop_inv_def by simp
  qed
qed

lemma gather_loop_inv:
  assumes inv: "loop_inv c dn st" and lim: "u_ok st < getLimit c"
  shows "loop_inv c (dn @ [(now, p)]) (flow_state (gather env c now p st))"
proof -
  let ?name = "split_first (p_name p)"
  from inv have ents: "\<forall>n e. u_hosts st n = Some e \<longrightarrow> entry_inv c dn e"
    unfolding loop_inv_def by auto
  show ?thesis
  proof (cases "u_hosts st ?name")
    case None
    show ?thesis
    proof (cases "findHost env ?name")
      case (Inl x)
      with None have "flow_state (gather env c now p st) = st" by (simp add: gather_def)
      with inv show ?thesis by (simp add: loop_inv_mono)
    next
      case (Inr h)
      let ?h1 = "add_proc now p (new_entry h)"
      have h1: "\<not> e_ok ?h1" by (simp add: add_proc_def new_entry_def)
      have ent: "entry_inv c (dn @ [(now, p)]) (?h1\<lparr>e_ok := thresholds_met c ?h1\<rparr>)"
        by (rule entry_inv_new)
      have notok: "\<forall>e. u_hosts st ?name = Some e \<longrightarrow> \<not> e_ok e" using None by simp
      have "flow_state (gather env c now p st) =
           (if thresholds_met c ?h1
            then st\<lparr>u_hosts := (u_hosts st)(?name \<mapsto> ?h1\<lparr>e_ok := True\<rparr>),
                    u_rows := addHost ?h1 (u_rows st),
                    u_ok := u_ok st + 1\<rparr>
            else st\<lparr>u_hosts := (u_hosts st)(?name \<mapsto> ?h1)\<rparr>)"
        using None Inr by (simp add: gather_def Let_def new_entry_def)
      with install_loop_inv [OF inv lim notok h1 ent] show ?thesis by simp
    qed
  next
    case (Some e)
    show ?thesis
    proof (cases "e_ok e")
      case True
      have "(u_hosts st)(?name \<mapsto> e) = u_hosts st" using Some by (rule map_upd_triv)
      with Some True have "flow_state (gather env c now p st) = st"
        by (simp add: gather_def Let_def)
      with inv show ?thesis by (simp add: loop_inv_mono)
    next
      case False
      let ?h1 = "add_proc now p e"
      have h1: "\<not> e_ok ?h1" using False by (simp add: add_proc_def)
      from ents Some have "entry_inv c dn e" by blast
      from entry_inv_not_ok [OF this False]
      have ent: "entry_inv c (dn @ [(now, p)]) (?h1\<lparr>e_ok := thresholds_met c ?h1\<rparr>)" .
      have notok: "\<forall>e. u_hosts st ?name = Some e \<longrightarrow> \<not> e_ok e" using Some False by simp
      have "flow_state (gather env c now p st) =
           (if thresholds_met c ?h1
            then st\<lparr>u_hosts := (u_hosts st)(?name \<mapsto> ?h1\<lparr>e_ok := True\<rparr>),
                    u_rows := addHost ?h1 (u_rows st),
                    u_ok := u_ok st + 1\<rparr>
            else st\<lparr>u_hosts := (u_hosts st)(?name \<mapsto> ?h1)\<rparr>)"
        using Some False by (simp add: gather_def Let_def)
      with install_loop_inv [OF inv lim notok h1 ent] show ?thesis by simp
    qed
  qed
qed

lemma update_proc_loop_inv:
  assumes inv: "loop_inv c dn st"
  shows "loop_inv c (dn @ [(time_time env i, p)]) (flow_state (update_proc env c i p st))"
proof (cases "passes_filters env c (u_ok st) p")
  case (Inl a)
  then have "flow_state (update_proc env c i p st) = st"
    by (cases a) (simp_all add: update_proc_def)
  with inv show ?thesis by (simp add: loop_inv_mono)
next
  case (Inr b)
  show ?thesis
  proof (cases b)
    case True
    with Inr have "u_ok st < getLimit c" by (auto dest: passes_filters_True)
    from gather_loop_inv [OF inv this] Inr True show ?thesis
      by (simp add: update_proc_def)
  next
    case False
    with Inr have "flow_state (update_proc env c i p st) = st"
      by (simp add: update_proc_def)
    with inv show ?thesis by (simp add: loop_inv_mono)
  qed
qed

lemma iterations_Cons:
  "iterations env i (p # ps) = (time_time env i, p) # iterations env (Suc i) ps"
  by (simp add: iterations_def upt_rec)

lemma update_loop_inv:
  assumes "loop_inv c dn st"
  shows "loop_inv c (dn @ iterations env i ps) (snd (update_loop env c i ps st))"
  using assms
proof (induction ps arbitrary: i dn st)
  case Nil
  then show ?case by (simp add: iterations_def)
next
  case (Cons p ps)
  have step: "loop_inv c (dn @ [(time_time env i, p)]) (flow_state (update_proc env c i p st))"
    using Cons.prems by (rule update_proc_loop_inv)
  have app: "dn @ iterations env i (p # ps) =
             (dn @ [(time_time env i, p)]) @ iterations env (Suc i) ps"
    by (simp add: iterations_Cons)
  show ?case
  proof (cases "wasCanceled env i")
    case True
    with Cons.prems show ?thesis by (simp add: loop_inv_mono)
  next
    case False
    show ?thesis
    proof (cases "update_proc env c i p st")
      case (Next st1)
      with step have "loop_inv c (dn @ [(time_time env i, p)]) st1" by simp
      from Cons.IH [OF this, of "Suc i"] False Next show ?thesis
        unfolding app by simp
    next
      case (Break st1)
      with step have "loop_inv c (dn @ [(time_time env i, p)]) st1" by simp
      then have "loop_inv c ((dn @ [(time_time env i, p)]) @ iterations env (Suc i) ps) st1"
        by (rule loop_inv_mono)
      with False Break show ?thesis unfolding app by simp
    next
      case (Raise e st1)
      with step have "loop_inv c (dn @ [(time_time env i, p)]) st1" by simp
      then have "loop_inv c ((dn @ [(time_time env i, p)]) @ iterations env (Suc i) ps) st1"
        by (rule loop_inv_mono)
      with False Raise show ?thesis unfolding app by simp
    qed
  qed
qed

lemma loop_inv_init: "loop_inv c [] init_ustate"
  by (simp add: loop_inv_def rows_inv_def init_ustate_def)

lemma update_loop_inv_init:
  "loop_inv c (iterations env 0 procs) (snd (update_loop env c 0 procs init_ustate))"
  using update_loop_inv [OF loop_inv_init, of c env 0 procs] by simp

lemma floor_half: "\<lfloor>1 / 2 :: rat\<rfloor> = 0"
  by (rule floor_unique) simp_all

lemma ex_getters:
  "getCores ex_controls = 1" "getMemory ex_controls = 4194304"
  "getCutoffTime ex_controls = 36000" "getLimit ex_controls = 10"
  "getJob ex_controls = ''pipe-target''" "getShow ex_controls = ex_show"
  "getRequiredService ex_controls = []" "getJobNameExcludeRegex ex_controls = []"
  "getIncludedGroups ex_controls = []" "getSelected ex_controls = [''lax.spinux'']"
  by (simp_all add: getCores_def getMemory_def getCutoffTime_def getLimit_def getJob_def
      getShow_def getRequiredService_def getJobNameExcludeRegex_def getIncludedGroups_def
      getSelected_def ex_controls_def py_int_def strip_def)

lemma ex_entry_eq:
  "ex_entry = \<lparr>e_host = ex_host, e_procs = [ex_proc], e_mem = 5242880, e_cores = 1,
               e_time = 1000, e_ok = True, e_alloc = ''lax.spinux''\<rparr>"
  by (simp add: ex_entry_def add_proc_def new_entry_def ex_host_def ex_proc_def py_int_def
      floor_half)

lemma ex_passes: "passes_filters ex_env ex_controls 0 ex_proc = Inr True"
  by (simp add: passes_filters_def ex_getters Let_def ex_proc_def ex_show_def)

lemma ex_gather:
  "gather ex_env ex_controls 2000 ex_proc init_ustate =
     Next \<lparr>u_hosts = [''host1'' \<mapsto> ex_entry], u_ok = 1, u_rows = [row_of ex_entry]\<rparr>"
proof -
  have name: "split_first (p_name ex_proc) = ''host1''"
    by (simp add: split_first_def ex_proc_def)
  have fh: "findHost ex_env ''host1'' = Inr ex_host" by (simp add: ex_env_def)
  have h1: "add_proc 2000 ex_proc (new_entry ex_host) = ex_entry\<lparr>e_ok := False\<rparr>"
    by (simp add: ex_entry_def add_proc_def new_entry_def)
  have met: "thresholds_met ex_controls (ex_entry\<lparr>e_ok := False\<rparr>)"
    by (simp add: thresholds_met_def ex_getters ex_entry_eq)
  have nok: "\<not> e_ok (new_entry ex_host)" by (simp add: new_entry_def)
  have ok: "ex_entry\<lparr>e_ok := True\<rparr> = ex_entry" by (simp add: ex_entry_def)
  show ?thesis
    by (simp add: gather_def name fh h1 met nok ok Let_def init_ustate_def addHost_def
        row_of_def)
qed

lemma ex_update_loop:
  "update_loop ex_env ex_controls 0 [ex_proc] init_ustate =
     (None, \<lparr>u_hosts = [''host1'' \<mapsto> ex_entry], u_ok = 1, u_rows = [row_of ex_entry]\<rparr>)"
proof -
  have "update_proc ex_env ex_controls 0 ex_proc init_ustate =
        Next \<lparr>u_hosts = [''host1'' \<mapsto> ex_entry], u_ok = 1, u_rows = [row_of ex_entry]\<rparr>"
    using ex_passes ex_gather by (simp add: update_proc_def init_ustate_def ex_env_def)
  then show ?thesis by (simp add: ex_env_def)
qed

lemma update_of_loop:
  assumes "getProcs env [sh_name (getShow c)] (getSelected c) = Inr procs"
  shows "fst (update env c w) = fst (update_loop env c 0 procs init_ustate)"
    and "w_model (snd (update env c w)) = u_rows (snd (update_loop env c 0 procs init_ustate))"
    and "fst (update env c w) = None \<Longrightarrow>
         w_hosts (snd (update env c w)) = u_hosts (snd (update_loop env c 0 procs init_ustate))"
  using assms
  by (auto simp: update_def split: prod.splits option.splits)

lemma update_getProcs_raises:
  "getProcs env [sh_name (getShow c)] (getSelected c) = Inl x \<Longrightarrow>
   update env c w = (Some x, w\<lparr>w_model := []\<rparr>)"
  by (simp add: update_def)

lemma update_loop_procs_all_init:
  assumes "\<forall>p \<in> set procs. \<forall>ok. passes_filters env c ok p = Inr True \<longrightarrow> Q p"
  shows "procs_all Q (snd (update_loop env c 0 procs init_ustate))"
  using procs_all_init assms by (rule update_loop_procs_all)

text \<open>
  C9, as amended (what \<^verbatim>\<open>update\<close> gathers, without a consequence for later redirects).
  Whatever procs the loop of \<^verbatim>\<open>update\<close> runs over, no entry of \<^verbatim>\<open>hosts\<close> gathers a proc
  that has a redirect target or whose job name is the text of the job box; the same holds
  for the child rows of the model after \<^verbatim>\<open>update\<close> and, when \<^verbatim>\<open>update\<close> returns normally,
  for the entries it stores in \<^verbatim>\<open>self.__hosts\<close>.
\<close>

theorem update_excludes_redirected_and_target:
  "(\<forall>procs n e. u_hosts (snd (update_loop env c 0 procs init_ustate)) n = Some e \<longrightarrow>
      (\<forall>p \<in> set (e_procs e). p_redirect_target p = [] \<and> p_job_name p \<noteq> getJob c)) \<and>
   (\<forall>r \<in> set (w_model (snd (update env c w))). \<forall>p \<in> set (r_procs r).
      p_redirect_target p = [] \<and> p_job_name p \<noteq> getJob c) \<and>
   (fst (update env c w) = None \<longrightarrow>
      (\<forall>n e. w_hosts (snd (update env c w)) n = Some e \<longrightarrow>
         (\<forall>p \<in> set (e_procs e). p_redirect_target p = [] \<and> p_job_name p \<noteq> getJob c)))"
proof -
  let ?Q = "\<lambda>p. p_redirect_target p = [] \<and> p_job_name p \<noteq> getJob c"
  have loop: "procs_all ?Q (snd (update_loop env c 0 procs init_ustate))" for procs
    by (rule update_loop_procs_all_init) (auto dest: passes_filters_True)
  have 1: "\<forall>procs n e. u_hosts (snd (update_loop env c 0 procs init_ustate)) n = Some e \<longrightarrow>
      (\<forall>p \<in> set (e_procs e). ?Q p)"
    using loop unfolding procs_all_def by blast
  show ?thesis
  proof (cases "getProcs env [sh_name (getShow c)] (getSelected c)")
    case (Inl x)
    then have "update env c w = (Some x, w\<lparr>w_model := []\<rparr>)"
      by (rule update_getProcs_raises)
    with 1 show ?thesis by simp
  next
    case (Inr procs)
    from loop [of procs] have
      "\<forall>r \<in> set (u_rows (snd (update_loop env c 0 procs init_ustate))).
         \<forall>p \<in> set (r_procs r). ?Q p"
      unfolding procs_all_def by blast
    then have 2: "\<forall>r \<in> set (w_model (snd (update env c w))). \<forall>p \<in> set (r_procs r). ?Q p"
      by (simp only: update_of_loop(2) [OF Inr])
    have 3: "\<forall>n e. w_hosts (snd (update env c w)) n = Some e \<longrightarrow>
         (\<forall>p \<in> set (e_procs e). ?Q p)" if "fst (update env c w) = None"
      using 1 unfolding update_of_loop(3) [OF Inr that] by blast
    from 1 2 3 show ?thesis by blast
  qed
qed

lemma ex_update_loop_skip:
  "update_loop ex_env ex_controls 0
     [ex_proc\<lparr>p_redirect_target := ''pipe-elsewhere''\<rparr>,
      ex_proc\<lparr>p_job_name := ''pipe-target''\<rparr>, ex_proc] init_ustate =
     (None, \<lparr>u_hosts = [''host1'' \<mapsto> ex_entry], u_ok = 1, u_rows = [row_of ex_entry]\<rparr>)"
proof -
  have 1: "passes_filters ex_env ex_controls 0
             (ex_proc\<lparr>p_redirect_target := ''pipe-elsewhere''\<rparr>) = Inr False"
    by (simp add: passes_filters_def ex_getters Let_def ex_proc_def ex_show_def)
  have 2: "passes_filters ex_env ex_controls 0
             (ex_proc\<lparr>p_job_name := ''pipe-target''\<rparr>) = Inr False"
    by (simp add: passes_filters_def ex_getters Let_def ex_proc_def ex_show_def)
  have 3: "update_proc ex_env ex_controls 2 ex_proc init_ustate =
        Next \<lparr>u_hosts = [''host1'' \<mapsto> ex_entry], u_ok = 1, u_rows = [row_of ex_entry]\<rparr>"
    using ex_passes ex_gather by (simp add: update_proc_def init_ustate_def ex_env_def)
  have c: "\<not> wasCanceled ex_env i" for i by (simp add: ex_env_def)
  have u0: "u_ok init_ustate = 0" by (simp add: init_ustate_def)
  show ?thesis
    by (simp add: c update_proc_def u0 1 2 3 [unfolded update_proc_def u0]
        numeral_2_eq_2 [symmetric])
qed

lemma passes_filters_getProcs:
  "passes_filters (env\<lparr>getProcs := g\<rparr>) c ok p = passes_filters env c ok p"
  by (simp add: passes_filters_def cong: if_cong)

lemma gather_getProcs:
  "gather (env\<lparr>getProcs := g\<rparr>) c now p st = gather env c now p st"
  by (simp add: gather_def cong: option.case_cong)

lemma update_loop_getProcs:
  "update_loop (env\<lparr>getProcs := g\<rparr>) c i ps st = update_loop env c i ps st"
proof (induction ps arbitrary: i st)
  case Nil
  show ?case by simp
next
  case (Cons p ps)
  have "update_proc (env\<lparr>getProcs := g\<rparr>) c i p st = update_proc env c i p st"
    by (simp add: update_proc_def passes_filters_getProcs gather_getProcs
        split: sum.splits bool.splits option.splits)
  with Cons.IH show ?case by (simp split: flow.splits)
qed

theorem update_excludes_redirected_and_target_witness:
  "fst (update ex_env_skip ex_controls ex_widget0) = None \<and>
   w_hosts (snd (update ex_env_skip ex_controls ex_widget0)) ''host1'' = Some ex_entry \<and>
   e_procs ex_entry = [ex_proc] \<and>
   w_model (snd (update ex_env_skip ex_controls ex_widget0)) = [row_of ex_entry] \<and>
   p_redirect_target ex_proc = [] \<and> p_job_name ex_proc \<noteq> getJob ex_controls"
proof -
  have run: "update ex_env_skip ex_controls ex_widget0 =
     (None, \<lparr>w_hosts = [''host1'' \<mapsto> ex_entry], w_model = [row_of ex_entry], w_events = []\<rparr>)"
  proof -
    have gp: "getProcs ex_env_skip [sh_name (getShow ex_controls)] (getSelected ex_controls) =
       Inr [ex_proc\<lparr>p_redirect_target := ''pipe-elsewhere''\<rparr>,
            ex_proc\<lparr>p_job_name := ''pipe-target''\<rparr>, ex_proc]"
      by (simp add: ex_env_skip_def ex_env_def)
    have loop: "update_loop ex_env_skip ex_controls 0
       [ex_proc\<lparr>p_redirect_target := ''pipe-elsewhere''\<rparr>,
        ex_proc\<lparr>p_job_name := ''pipe-target''\<rparr>, ex_proc] init_ustate =
       (None, \<lparr>u_hosts = [''host1'' \<mapsto> ex_entry], u_ok = 1, u_rows = [row_of ex_entry]\<rparr>)"
      by (simp only: ex_env_skip_def update_loop_getProcs ex_update_loop_skip)
    show ?thesis unfolding update_def gp sum.case loop by (simp add: ex_widget0_def)
  qed
  then have a: "fst (update ex_env_skip ex_controls ex_widget0) = None"
    and b: "w_hosts (snd (update ex_env_skip ex_controls ex_widget0)) ''host1'' = Some ex_entry"
    and d: "w_model (snd (update ex_env_skip ex_controls ex_widget0)) = [row_of ex_entry]"
    by simp_all
  have c: "e_procs ex_entry = [ex_proc]" by (simp add: ex_entry_eq)
  from update_excludes_redirected_and_target [of ex_env_skip ex_controls ex_widget0] a b
  have "\<forall>p \<in> set (e_procs ex_entry).
          p_redirect_target p = [] \<and> p_job_name p \<noteq> getJob ex_controls"
    by blast
  with c have "p_redirect_target ex_proc = [] \<and> p_job_name ex_proc \<noteq> getJob ex_controls"
    by simp
  with a b c d show ?thesis by blast
qed

lemma ex_update:
  "update ex_env ex_controls ex_widget0 =
     (None, \<lparr>w_hosts = [''host1'' \<mapsto> ex_entry], w_model = [row_of ex_entry], w_events = []\<rparr>)"
proof -
  have gp: "getProcs ex_env [sh_name (getShow ex_controls)] (getSelected ex_controls)
              = Inr [ex_proc]"
    by (simp add: ex_env_def)
  show ?thesis unfolding update_def gp sum.case ex_update_loop by (simp add: ex_widget0_def)
qed

lemma ex_selectAll:
  "selectAll \<lparr>w_hosts = [''host1'' \<mapsto> ex_entry], w_model = [row_of ex_entry], w_events = []\<rparr>
     = ex_widget"
  by (simp add: selectAll_def ex_widget_def)

lemma ex_redirect_again:
  "redirect ex_env ex_controls
     (ex_widget\<lparr>w_model := map mark_redirected (w_model ex_widget),
                w_events := [RedirectToJob ex_host [ex_proc] ex_job None]\<rparr>) =
   (None, ex_widget\<lparr>w_model := map mark_redirected (w_model ex_widget),
                    w_events := [RedirectToJob ex_host [ex_proc] ex_job None,
                                 RedirectToJob ex_host [ex_proc] ex_job None]\<rparr>)"
  by (simp add: redirect_def getJob_def ex_controls_def Let_def
      ex_env_def is_cross_show_safe_def ex_other_job_def ex_job_def is_burst_safe_def
      ex_show_def show_subs_def dict_of_pairs_def rstrip_def ex_proc_def py_int_def
      ex_widget_def row_of_def ex_entry_def add_proc_def new_entry_def ex_host_def
      mark_redirected_def)

lemma ex_redirect_own_job:
  "redirect ex_env_jobs (ex_controls\<lparr>job_box := ''pipe-other''\<rparr>) ex_widget =
   (None, ex_widget\<lparr>w_model := map mark_redirected (w_model ex_widget),
                    w_events := [RedirectToJob ex_host [ex_proc] ex_other_job None]\<rparr>)"
  by (simp add: redirect_def getJob_def ex_controls_def Let_def
      ex_env_def ex_env_jobs_def is_cross_show_safe_def ex_other_job_def ex_job_def
      is_burst_safe_def
      ex_show_def show_subs_def dict_of_pairs_def rstrip_def ex_proc_def py_int_def
      ex_widget_def row_of_def ex_entry_def add_proc_def new_entry_def ex_host_def
      mark_redirected_def)

text \<open>
  C9, as stated, fails in its consequence. After a search with the job box at
  \<open>pipe-target\<close> the row of \<open>host1\<close> is checked; \<^verbatim>\<open>redirect\<close> leaves the row checked (it
  sets the icon and disables the row), so a second \<^verbatim>\<open>redirect\<close> calls \<^verbatim>\<open>redirectToJob\<close> for
  the same proc again. And \<^verbatim>\<open>redirect\<close> reads the job box when it runs: with the box
  changed to \<open>pipe-other\<close>, the job of the proc, the proc is redirected to the job it
  runs on.
\<close>

theorem update_then_redirect_counterexample:
  "w_events (snd (redirect ex_env ex_controls
      (snd (redirect ex_env ex_controls
         (selectAll (snd (update ex_env ex_controls ex_widget0))))))) =
     [RedirectToJob ex_host [ex_proc] ex_job None,
      RedirectToJob ex_host [ex_proc] ex_job None] \<and>
   w_events (snd (redirect ex_env_jobs (ex_controls\<lparr>job_box := ''pipe-other''\<rparr>)
      (selectAll (snd (update ex_env ex_controls ex_widget0))))) =
     [RedirectToJob ex_host [ex_proc] ex_other_job None] \<and>
   p_job_name ex_proc = j_name ex_other_job \<and>
   getJob ex_controls = ''pipe-target'' \<and>
   getJob (ex_controls\<lparr>job_box := ''pipe-other''\<rparr>) = ''pipe-other''"
  unfolding ex_update snd_conv ex_selectAll ex_redirect ex_redirect_again ex_redirect_own_job
  by (simp add: ex_proc_def ex_other_job_def getJob_def ex_controls_def)

text \<open>
  C3. \<^verbatim>\<open>update\<close> runs its loop over the procs that \<^verbatim>\<open>getProcs\<close> returns for the name of the
  selected show and the selected allocations (and stops with the model cleared when that
  call raises). A proc gathered into an entry, or shown under a row, is one of the returned
  procs, has the selected show's name as its show name, did not match the exclude regex
  under \<^verbatim>\<open>re.match\<close> when the regex is not empty, has the required service among its
  services when that is not empty, and has its group among the included groups when any
  group is checked.
\<close>

theorem update_gathers_filtered_procs:
  "(\<forall>procs. getProcs env [sh_name (getShow c)] (getSelected c) = Inr procs \<longrightarrow>
      fst (update env c w) = fst (update_loop env c 0 procs init_ustate) \<and>
      w_model (snd (update env c w)) = u_rows (snd (update_loop env c 0 procs init_ustate)) \<and>
      (fst (update env c w) = None \<longrightarrow>
         w_hosts (snd (update env c w)) =
         u_hosts (snd (update_loop env c 0 procs init_ustate))) \<and>
      (\<forall>n e. u_hosts (snd (update_loop env c 0 procs init_ustate)) n = Some e \<longrightarrow>
         (\<forall>p \<in> set (e_procs e).
            p \<in> set procs \<and>
            p_show_name p = sh_name (getShow c) \<and>
            (getJobNameExcludeRegex c \<noteq> [] \<longrightarrow>
               re_match env (getJobNameExcludeRegex c) (p_job_name p) = Inr False) \<and>
            (getRequiredService c \<noteq> [] \<longrightarrow> getRequiredService c \<in> set (p_services p)) \<and>
            (getIncludedGroups c \<noteq> [] \<longrightarrow> p_group_name p \<in> set (getIncludedGroups c)))) \<and>
      (\<forall>r \<in> set (w_model (snd (update env c w))). \<forall>p \<in> set (r_procs r).
            p \<in> set procs \<and>
            p_show_name p = sh_name (getShow c) \<and>
            (getJobNameExcludeRegex c \<noteq> [] \<longrightarrow>
               re_match env (getJobNameExcludeRegex c) (p_job_name p) = Inr False) \<and>
            (getRequiredService c \<noteq> [] \<longrightarrow> getRequiredService c \<in> set (p_services p)) \<and>
            (getIncludedGroups c \<noteq> [] \<longrightarrow> p_group_name p \<in> set (getIncludedGroups c)))) \<and>
   (\<forall>x. getProcs env [sh_name (getShow c)] (getSelected c) = Inl x \<longrightarrow>
      update env c w = (Some x, w\<lparr>w_model := []\<rparr>))"
proof (intro conjI allI impI)
  fix procs
  assume gp: "getProcs env [sh_name (getShow c)] (getSelected c) = Inr procs"
  let ?Q = "\<lambda>p. p \<in> set procs \<and>
            p_show_name p = sh_name (getShow c) \<and>
            (getJobNameExcludeRegex c \<noteq> [] \<longrightarrow>
               re_match env (getJobNameExcludeRegex c) (p_job_name p) = Inr False) \<and>
            (getRequiredService c \<noteq> [] \<longrightarrow> getRequiredService c \<in> set (p_services p)) \<and>
            (getIncludedGroups c \<noteq> [] \<longrightarrow> p_group_name p \<in> set (getIncludedGroups c))"
  have loop: "procs_all ?Q (snd (update_loop env c 0 procs init_ustate))"
    by (rule update_loop_procs_all_init) (auto dest: passes_filters_True)
  show "fst (update env c w) = fst (update_loop env c 0 procs init_ustate)"
    by (rule update_of_loop(1) [OF gp])
  show "w_model (snd (update env c w)) = u_rows (snd (update_loop env c 0 procs init_ustate))"
    by (rule update_of_loop(2) [OF gp])
  show "w_hosts (snd (update env c w)) = u_hosts (snd (update_loop env c 0 procs init_ustate))"
    if "fst (update env c w) = None"
    using that by (rule update_of_loop(3) [OF gp])
  show "\<forall>p \<in> set (e_procs e). ?Q p"
    if "u_hosts (snd (update_loop env c 0 procs init_ustate)) n = Some e" for n e
    using loop that unfolding procs_all_def by blast
  show "\<forall>r \<in> set (w_model (snd (update env c w))). \<forall>p \<in> set (r_procs r). ?Q p"
    using loop unfolding procs_all_def update_of_loop(2) [OF gp] by blast
next
  fix x
  assume "getProcs env [sh_name (getShow c)] (getSelected c) = Inl x"
  then show "update env c w = (Some x, w\<lparr>w_model := []\<rparr>)"
    by (rule update_getProcs_raises)
qed

lemma ex_filters_getters:
  "getCores ex_controls_filters = 1" "getMemory ex_controls_filters = 4194304"
  "getCutoffTime ex_controls_filters = 36000" "getLimit ex_controls_filters = 10"
  "getJob ex_controls_filters = ''pipe-target''" "getShow ex_controls_filters = ex_show"
  "getRequiredService ex_controls_filters = ''maya''"
  "getJobNameExcludeRegex ex_controls_filters = ''test''"
  "getIncludedGroups ex_controls_filters = [''g1'', ''g2'']"
  "getSelected ex_controls_filters = [''lax.spinux'']"
  by (simp_all add: getCores_def getMemory_def getCutoffTime_def getLimit_def getJob_def
      getShow_def getRequiredService_def getJobNameExcludeRegex_def getIncludedGroups_def
      getSelected_def ex_controls_filters_def ex_controls_def py_int_def strip_def
      is_space_def)

lemma ex_update_loop_filters:
  "update_loop ex_env ex_controls_filters 0 [ex_proc] init_ustate =
     (None, \<lparr>u_hosts = [''host1'' \<mapsto> ex_entry], u_ok = 1, u_rows = [row_of ex_entry]\<rparr>)"
proof -
  have pf: "passes_filters ex_env ex_controls_filters 0 ex_proc = Inr True"
    by (simp add: passes_filters_def ex_filters_getters Let_def ex_proc_def ex_show_def)
       (simp add: ex_env_def)
  have met: "thresholds_met ex_controls_filters = thresholds_met ex_controls"
    by (simp add: thresholds_met_def ex_filters_getters ex_getters fun_eq_iff)
  have g: "gather ex_env ex_controls_filters 2000 ex_proc init_ustate =
           gather ex_env ex_controls 2000 ex_proc init_ustate"
    by (simp only: gather_def met)
  have up: "update_proc ex_env ex_controls_filters 0 ex_proc init_ustate =
        Next \<lparr>u_hosts = [''host1'' \<mapsto> ex_entry], u_ok = 1, u_rows = [row_of ex_entry]\<rparr>"
    using pf g ex_gather by (simp add: update_proc_def init_ustate_def ex_env_def)
  then show ?thesis by (simp add: ex_env_def)
qed

lemma ex_update_filters:
  "update ex_env ex_controls_filters ex_widget0 =
     (None, \<lparr>w_hosts = [''host1'' \<mapsto> ex_entry], w_model = [row_of ex_entry], w_events = []\<rparr>)"
proof -
  have gp: "getProcs ex_env [sh_name (getShow ex_controls_filters)]
              (getSelected ex_controls_filters) = Inr [ex_proc]"
    by (simp add: ex_env_def)
  show ?thesis unfolding update_def gp sum.case ex_update_loop_filters
    by (simp add: ex_widget0_def)
qed

theorem update_gathers_filtered_procs_witness:
  "getProcs ex_env [sh_name (getShow ex_controls_filters)] (getSelected ex_controls_filters)
     = Inr [ex_proc] \<and>
   u_hosts (snd (update_loop ex_env ex_controls_filters 0 [ex_proc] init_ustate)) ''host1''
     = Some ex_entry \<and>
   e_procs ex_entry = [ex_proc] \<and>
   getJobNameExcludeRegex ex_controls_filters = ''test'' \<and>
   getRequiredService ex_controls_filters = ''maya'' \<and>
   getIncludedGroups ex_controls_filters = [''g1'', ''g2''] \<and>
   p_show_name ex_proc = sh_name (getShow ex_controls_filters) \<and>
   re_match ex_env ''test'' (p_job_name ex_proc) = Inr False \<and>
   ''maya'' \<in> set (p_services ex_proc) \<and>
   p_group_name ex_proc \<in> set [''g1'', ''g2''] \<and>
   update ex_env ex_controls_filters ex_widget0 =
     (None, \<lparr>w_hosts = [''host1'' \<mapsto> ex_entry], w_model = [row_of ex_entry], w_events = []\<rparr>)"
proof -
  have gp: "getProcs ex_env [sh_name (getShow ex_controls_filters)]
              (getSelected ex_controls_filters) = Inr [ex_proc]"
    by (simp add: ex_env_def)
  from update_gathers_filtered_procs [of ex_env ex_controls_filters ex_widget0] gp
  have q: "\<forall>n e. u_hosts (snd (update_loop ex_env ex_controls_filters 0 [ex_proc] init_ustate)) n
                = Some e \<longrightarrow>
         (\<forall>p \<in> set (e_procs e).
            p \<in> set [ex_proc] \<and>
            p_show_name p = sh_name (getShow ex_controls_filters) \<and>
            (getJobNameExcludeRegex ex_controls_filters \<noteq> [] \<longrightarrow>
               re_match ex_env (getJobNameExcludeRegex ex_controls_filters) (p_job_name p)
                 = Inr False) \<and>
            (getRequiredService ex_controls_filters \<noteq> [] \<longrightarrow>
               getRequiredService ex_controls_filters \<in> set (p_services p)) \<and>
            (getIncludedGroups ex_controls_filters \<noteq> [] \<longrightarrow>
               p_group_name p \<in> set (getIncludedGroups ex_controls_filters)))"
    by blast
  have e: "u_hosts (snd (update_loop ex_env ex_controls_filters 0 [ex_proc] init_ustate))
                    ''host1'' = Some ex_entry"
    unfolding ex_update_loop_filters by simp
  have ps: "e_procs ex_entry = [ex_proc]" by (simp add: ex_entry_eq)
  note g = ex_filters_getters(8) ex_filters_getters(7) ex_filters_getters(9)
  from q e have "\<forall>p \<in> set (e_procs ex_entry).
            p \<in> set [ex_proc] \<and>
            p_show_name p = sh_name (getShow ex_controls_filters) \<and>
            (getJobNameExcludeRegex ex_controls_filters \<noteq> [] \<longrightarrow>
               re_match ex_env (getJobNameExcludeRegex ex_controls_filters) (p_job_name p)
                 = Inr False) \<and>
            (getRequiredService ex_controls_filters \<noteq> [] \<longrightarrow>
               getRequiredService ex_controls_filters \<in> set (p_services p)) \<and>
            (getIncludedGroups ex_controls_filters \<noteq> [] \<longrightarrow>
               p_group_name p \<in> set (getIncludedGroups ex_controls_filters))"
    by blast
  then have concl:
    "p_show_name ex_proc = sh_name (getShow ex_controls_filters) \<and>
     re_match ex_env ''test'' (p_job_name ex_proc) = Inr False \<and>
     ''maya'' \<in> set (p_services ex_proc) \<and>
     p_group_name ex_proc \<in> set [''g1'', ''g2'']"
    unfolding ps g by simp
  from gp e ps g concl ex_update_filters show ?thesis by blast
qed

lemma gather_keeps_ok:
  assumes "u_hosts st n = Some e" and "e_ok e"
  shows "u_hosts (flow_state (gather env c now p st)) n = Some e \<and>
         prefix (u_rows st) (u_rows (flow_state (gather env c now p st)))"
proof (cases "split_first (p_name p) = n")
  case True
  have "(u_hosts st)(n \<mapsto> e) = u_hosts st" using assms(1) by (rule map_upd_triv)
  with True assms have "flow_state (gather env c now p st) = st"
    by (simp add: gather_def Let_def)
  with assms(1) show ?thesis by simp
next
  case False
  with assms(1) show ?thesis
    by (auto simp: gather_def Let_def addHost_def split: option.splits sum.splits)
qed

lemma gather_same_host_ok:
  assumes "u_hosts st (split_first (p_name p)) = Some e" and "e_ok e"
  shows "flow_state (gather env c now p st) = st"
proof -
  have "(u_hosts st)(split_first (p_name p) \<mapsto> e) = u_hosts st"
    using assms(1) by (rule map_upd_triv)
  with assms show ?thesis by (simp add: gather_def Let_def)
qed

lemma update_proc_same_host_ok:
  assumes "u_hosts st (split_first (p_name p)) = Some e" and "e_ok e"
  shows "flow_state (update_proc env c i p st) = st"
  using gather_same_host_ok [OF assms]
  by (simp add: update_proc_def split: sum.splits option.splits bool.splits)

lemma update_proc_keeps_ok:
  assumes "u_hosts st n = Some e" and "e_ok e"
  shows "u_hosts (flow_state (update_proc env c i p st)) n = Some e \<and>
         prefix (u_rows st) (u_rows (flow_state (update_proc env c i p st)))"
  using gather_keeps_ok [OF assms] assms(1)
  by (simp add: update_proc_def split: sum.splits option.splits bool.splits)

lemma update_loop_keeps_ok:
  assumes "u_hosts st n = Some e" and "e_ok e"
  shows "u_hosts (snd (update_loop env c i ps st)) n = Some e \<and>
         prefix (u_rows st) (u_rows (snd (update_loop env c i ps st)))"
  using assms(1)
proof (induction ps arbitrary: i st)
  case Nil
  then show ?case by simp
next
  case (Cons p ps)
  from update_proc_keeps_ok [OF Cons.prems assms(2)]
  have step: "u_hosts (flow_state (update_proc env c i p st)) n = Some e"
    "prefix (u_rows st) (u_rows (flow_state (update_proc env c i p st)))"
    by simp_all
  show ?case
  proof (cases "wasCanceled env i")
    case True
    with Cons.prems show ?thesis by simp
  next
    case False
    show ?thesis
    proof (cases "update_proc env c i p st")
      case (Next st1)
      with step have s1: "u_hosts st1 n = Some e" "prefix (u_rows st) (u_rows st1)"
        by simp_all
      from Cons.IH [OF s1(1), of "Suc i"] s1(2) False Next show ?thesis
        by (auto intro: prefix_order.trans)
    next
      case (Break st1)
      with step False show ?thesis by simp
    next
      case (Raise x st1)
      with step False show ?thesis by simp
    qed
  qed
qed

lemma gather_hosts_named:
  assumes "\<forall>n h. findHost env n = Inr h \<longrightarrow> h_name h = n" and "hosts_named st"
  shows "hosts_named (flow_state (gather env c now p st))"
  using assms
  by (auto simp: hosts_named_def gather_def Let_def add_proc_def new_entry_def
      split: option.splits sum.splits if_splits)

lemma update_proc_hosts_named:
  assumes "\<forall>n h. findHost env n = Inr h \<longrightarrow> h_name h = n" and "hosts_named st"
  shows "hosts_named (flow_state (update_proc env c i p st))"
  using gather_hosts_named [OF assms] assms(2)
  by (simp add: update_proc_def split: sum.splits option.splits bool.splits)

lemma update_loop_hosts_named:
  assumes "\<forall>n h. findHost env n = Inr h \<longrightarrow> h_name h = n" and "hosts_named st"
  shows "hosts_named (snd (update_loop env c i ps st))"
  using assms(2)
proof (induction ps arbitrary: i st)
  case Nil
  then show ?case by simp
next
  case (Cons p ps)
  from update_proc_hosts_named [OF assms(1) Cons.prems]
  have step: "hosts_named (flow_state (update_proc env c i p st))" .
  show ?case
  proof (cases "wasCanceled env i")
    case True
    with Cons.prems show ?thesis by simp
  next
    case False
    show ?thesis
    proof (cases "update_proc env c i p st")
      case (Next st1)
      with step have "hosts_named st1" by simp
      from Cons.IH [OF this, of "Suc i"] False Next show ?thesis by simp
    next
      case (Break st1)
      with step False show ?thesis by simp
    next
      case (Raise x st1)
      with step False show ?thesis by simp
    qed
  qed
qed

lemma rows_distinct_texts:
  assumes "rows_inv st" and "hosts_named st"
  shows "distinct (map r_text (u_rows st))"
proof -
  from assms(1) obtain ks where ks: "distinct ks"
    "set ks = {n. \<exists>e. u_hosts st n = Some e \<and> e_ok e}"
    "u_rows st = map (\<lambda>k. row_of (the (u_hosts st k))) ks"
    unfolding rows_inv_def by blast
  have "map r_text (u_rows st) = map (\<lambda>k. r_text (row_of (the (u_hosts st k)))) ks"
    unfolding ks(3) by simp
  also have "\<dots> = map (\<lambda>k. k) ks"
  proof (rule map_cong)
    fix k assume "k \<in> set ks"
    with ks(2) obtain e where "u_hosts st k = Some e" by auto
    with assms(2) show "r_text (row_of (the (u_hosts st k))) = k"
      by (simp add: hosts_named_def row_of_def)
  qed simp
  finally show ?thesis using ks(1) by simp
qed

text \<open>
  C8. With a limit that is not negative (the limit spin box ranges over 1 to 100), the
  loop of \<^verbatim>\<open>update\<close> never has more rows than the limit, and neither has the model after
  \<^verbatim>\<open>update\<close>. The rows are the rows of the entries that are ok, one for each of their keys,
  so a host has at most one row; when \<^verbatim>\<open>findHost\<close> returns the host of the name it was
  asked for, the texts of the rows are distinct. Once the entry of a host is ok it stays as
  it is however the loop goes on and the rows already there stay in place; an iteration on
  a proc of such a host leaves the whole state of the loop unchanged.
\<close>

theorem update_rows_within_limit_and_unique:
  "(0 \<le> getLimit c \<longrightarrow>
      int (length (u_rows (snd (update_loop env c 0 procs init_ustate)))) \<le> getLimit c \<and>
      int (length (w_model (snd (update env c w)))) \<le> getLimit c) \<and>
   (\<exists>ks. distinct ks \<and>
      set ks = {n. \<exists>e. u_hosts (snd (update_loop env c 0 procs init_ustate)) n = Some e \<and>
                      e_ok e} \<and>
      u_rows (snd (update_loop env c 0 procs init_ustate)) =
        map (\<lambda>k. row_of (the (u_hosts (snd (update_loop env c 0 procs init_ustate)) k))) ks) \<and>
   ((\<forall>n h. findHost env n = Inr h \<longrightarrow> h_name h = n) \<longrightarrow>
      distinct (map r_text (u_rows (snd (update_loop env c 0 procs init_ustate)))) \<and>
      distinct (map r_text (w_model (snd (update env c w))))) \<and>
   (\<forall>st i ps n e. u_hosts st n = Some e \<and> e_ok e \<longrightarrow>
      u_hosts (snd (update_loop env c i ps st)) n = Some e \<and>
      prefix (u_rows st) (u_rows (snd (update_loop env c i ps st)))) \<and>
   (\<forall>st i p e. u_hosts st (split_first (p_name p)) = Some e \<and> e_ok e \<longrightarrow>
      flow_state (update_proc env c i p st) = st)"
proof -
  have inv: "loop_inv c (iterations env 0 ps) (snd (update_loop env c 0 ps init_ustate))" for ps
    by (rule update_loop_inv_init)
  have len: "int (length (u_rows (snd (update_loop env c 0 ps init_ustate)))) \<le> getLimit c"
    if "0 \<le> getLimit c" for ps
    using inv [of ps] that unfolding loop_inv_def by simp
  have named: "hosts_named (snd (update_loop env c 0 ps init_ustate))"
    if "\<forall>n h. findHost env n = Inr h \<longrightarrow> h_name h = n" for ps
    using that by (rule update_loop_hosts_named) (simp add: hosts_named_def init_ustate_def)
  have dist: "distinct (map r_text (u_rows (snd (update_loop env c 0 ps init_ustate))))"
    if "\<forall>n h. findHost env n = Inr h \<longrightarrow> h_name h = n" for ps
    using inv [of ps] named [OF that, of ps] unfolding loop_inv_def
    by (intro rows_distinct_texts) simp_all
  have model: "w_model (snd (update env c w)) = [] \<or>
               (\<exists>ps. w_model (snd (update env c w)) =
                       u_rows (snd (update_loop env c 0 ps init_ustate)))"
  proof (cases "getProcs env [sh_name (getShow c)] (getSelected c)")
    case (Inl x)
    then show ?thesis by (simp add: update_getProcs_raises)
  next
    case (Inr ps)
    from update_of_loop(2) [OF this] show ?thesis by blast
  qed
  have 1: "0 \<le> getLimit c \<longrightarrow>
      int (length (u_rows (snd (update_loop env c 0 procs init_ustate)))) \<le> getLimit c \<and>
      int (length (w_model (snd (update env c w)))) \<le> getLimit c"
    using len model by auto
  have 2: "\<exists>ks. distinct ks \<and>
      set ks = {n. \<exists>e. u_hosts (snd (update_loop env c 0 procs init_ustate)) n = Some e \<and>
                      e_ok e} \<and>
      u_rows (snd (update_loop env c 0 procs init_ustate)) =
        map (\<lambda>k. row_of (the (u_hosts (snd (update_loop env c 0 procs init_ustate)) k))) ks"
    using inv [of procs] unfolding loop_inv_def rows_inv_def by blast
  have 3: "(\<forall>n h. findHost env n = Inr h \<longrightarrow> h_name h = n) \<longrightarrow>
      distinct (map r_text (u_rows (snd (update_loop env c 0 procs init_ustate)))) \<and>
      distinct (map r_text (w_model (snd (update env c w))))"
    using dist model by auto
  have 4: "\<forall>st i ps n e. u_hosts st n = Some e \<and> e_ok e \<longrightarrow>
      u_hosts (snd (update_loop env c i ps st)) n = Some e \<and>
      prefix (u_rows st) (u_rows (snd (update_loop env c i ps st)))"
    using update_loop_keeps_ok by blast
  have 5: "\<forall>st i p e. u_hosts st (split_first (p_name p)) = Some e \<and> e_ok e \<longrightarrow>
      flow_state (update_proc env c i p st) = st"
    using update_proc_same_host_ok by blast
  from 1 2 3 4 5 show ?thesis by (intro conjI)
qed

lemma ex_update_loop_two:
  "update_loop ex_env ex_controls 0 [ex_proc, ex_proc2] init_ustate = (None, ex_ustate)"
proof -
  have 1: "update_proc ex_env ex_controls 0 ex_proc init_ustate = Next ex_ustate"
    using ex_passes ex_gather
    by (simp add: update_proc_def init_ustate_def ex_env_def ex_ustate_def)
  have name: "split_first (p_name ex_proc2) = ''host1''"
    by (simp add: split_first_def ex_proc2_def)
  have "flow_state (update_proc ex_env ex_controls 1 ex_proc2 ex_ustate) = ex_ustate"
    by (rule update_proc_same_host_ok [of _ _ ex_entry])
       (simp_all add: name ex_ustate_def ex_entry_def)
  moreover have "passes_filters ex_env ex_controls 1 ex_proc2 = Inr True"
    by (simp add: passes_filters_def ex_getters Let_def ex_proc_def ex_proc2_def ex_show_def)
  ultimately have 2: "update_proc ex_env ex_controls 1 ex_proc2 ex_ustate = Next ex_ustate"
    by (simp add: update_proc_def ex_ustate_def gather_def Let_def name split: if_splits)
  have c: "\<not> wasCanceled ex_env i" for i by (simp add: ex_env_def)
  show ?thesis by (simp add: c 1 2 [unfolded One_nat_def])
qed

theorem update_rows_within_limit_and_unique_witness:
  "0 \<le> getLimit ex_controls \<and>
   \<not> (\<exists>n h. findHost ex_env n = Inr h \<and> h_name h \<noteq> n) \<and>
   u_rows (snd (update_loop ex_env ex_controls 0 [ex_proc, ex_proc2] init_ustate))
     = [row_of ex_entry] \<and>
   int (length (u_rows (snd (update_loop ex_env ex_controls 0 [ex_proc, ex_proc2]
                               init_ustate)))) \<le> getLimit ex_controls \<and>
   distinct (map r_text (u_rows (snd (update_loop ex_env ex_controls 0 [ex_proc, ex_proc2]
                                        init_ustate)))) \<and>
   u_hosts ex_ustate (split_first (p_name ex_proc2)) = Some ex_entry \<and> e_ok ex_entry \<and>
   flow_state (update_proc ex_env ex_controls 1 ex_proc2 ex_ustate) = ex_ustate"
proof -
  have lim: "0 \<le> getLimit ex_controls" by (simp add: ex_getters)
  have named: "\<forall>n h. findHost ex_env n = Inr h \<longrightarrow> h_name h = n"
    by (simp add: ex_env_def ex_host_def)
  have rows: "u_rows (snd (update_loop ex_env ex_controls 0 [ex_proc, ex_proc2] init_ustate))
     = [row_of ex_entry]"
    unfolding ex_update_loop_two by (simp add: ex_ustate_def)
  have ent: "u_hosts ex_ustate (split_first (p_name ex_proc2)) = Some ex_entry"
    by (simp add: split_first_def ex_proc2_def ex_ustate_def)
  have ok: "e_ok ex_entry" by (simp add: ex_entry_def)
  note t = update_rows_within_limit_and_unique
             [of ex_controls ex_env "[ex_proc, ex_proc2]" ex_widget0]
  from t lim have a: "int (length (u_rows (snd (update_loop ex_env ex_controls 0
      [ex_proc, ex_proc2] init_ustate)))) \<le> getLimit ex_controls"
    by blast
  from t named have b: "distinct (map r_text (u_rows (snd (update_loop ex_env ex_controls 0
      [ex_proc, ex_proc2] init_ustate))))"
    by blast
  from t ent ok have d: "flow_state (update_proc ex_env ex_controls 1 ex_proc2 ex_ustate)
      = ex_ustate"
    by blast
  from named have "\<not> (\<exists>n h. findHost ex_env n = Inr h \<and> h_name h \<noteq> n)" by blast
  with lim rows a b ent ok d show ?thesis by blast
qed










end
